theory Spec2Isabelle
  imports Complex_Main "HOL-Library.Multiset" "HOL-Library.Product_Lexorder" "HOL-Library.Sublist"
    "HOL-Library.Word"
begin

section \<open>The doodle reveal engine: data model\<close>

text \<open>
  The engine lives in \<^verbatim>\<open>DoodleVideoGeneratorV8\<close> (create_doodle_video_v8.py) and its
  predecessors V5, V6, V7.3 and V8.1. Glyphs are Python dicts; they become records here.
  Integers coming out of the connected-component statistics are \<open>int\<close>; every Python
  float is an (ideal) \<open>real\<close>, so rounding of IEEE doubles is not part of the model.
  A contour is the dict \<^verbatim>\<open>{'pts': ..., 'len': ...}\<close>: its points and its cached arc length.
\<close>

type_synonym point = "int \<times> int"

record contour =
  pts :: "point list"
  len :: real

text \<open>
  The fields every engine version stores for a glyph (\<^verbatim>\<open>'id', 'x', 'y', 'w', 'h', 'area'\<close>);
  V7.3, V8 and V8.1 add \<^verbatim>\<open>'contours', 'total_len', 'center'\<close>.
\<close>

record glyph_box =
  glyph_id :: int
  glyph_x :: int
  glyph_y :: int
  glyph_w :: int
  glyph_h :: int
  area :: int

record glyph = glyph_box +
  contours :: "contour list"
  total_len :: real
  center :: "real \<times> real"

datatype py_error = IndexError | KeyError | ZeroDivisionError | TypeError

text \<open>Python's \<^verbatim>\<open>int(x)\<close> on a float truncates towards zero.\<close>

definition py_int :: "real \<Rightarrow> int" where
  "py_int r = (if 0 \<le> r then \<lfloor>r\<rfloor> else \<lceil>r\<rceil>)"

section \<open>Proximity word-merge (\<^verbatim>\<open>_safely_merge_words\<close>)\<close>

text \<open>
  V7.3 and V8 (and V8.1) run the same code with different constants: the bypass area
  threshold, the vertical factor and the two horizontal gap factors.
\<close>

record merge_consts =
  area_limit :: int
  v_factor :: real
  gap_max_factor :: real
  gap_min_factor :: real

definition v8_consts :: merge_consts where
  "v8_consts = \<lparr>area_limit = 10000, v_factor = 0.7, gap_max_factor = 1.2, gap_min_factor = 0.5\<rparr>"

definition v7_3_consts :: merge_consts where
  "v7_3_consts = \<lparr>area_limit = 8000, v_factor = 0.5, gap_max_factor = 0.4, gap_min_factor = 0.2\<rparr>"

definition avg_h :: "glyph \<Rightarrow> glyph \<Rightarrow> real" where
  "avg_h current_meta next_g = (real_of_int (glyph_h current_meta) + real_of_int (glyph_h next_g)) / 2"

definition vertical_match :: "merge_consts \<Rightarrow> glyph \<Rightarrow> glyph \<Rightarrow> bool" where
  "vertical_match k current_meta next_g =
     (\<bar>snd (center current_meta) - snd (center next_g)\<bar> < avg_h current_meta next_g * v_factor k)"

definition gap :: "glyph \<Rightarrow> glyph \<Rightarrow> int" where
  "gap current_meta next_g = glyph_x next_g - (glyph_x current_meta + glyph_w current_meta)"

definition horizontal_match :: "merge_consts \<Rightarrow> glyph \<Rightarrow> glyph \<Rightarrow> bool" where
  "horizontal_match k current_meta next_g =
     (real_of_int (gap current_meta next_g) < avg_h current_meta next_g * gap_max_factor k \<and>
      real_of_int (gap current_meta next_g) > - (avg_h current_meta next_g * gap_min_factor k))"

text \<open>The MERGE branch: the accumulator dict is updated field by field.\<close>

definition absorb :: "glyph \<Rightarrow> glyph \<Rightarrow> glyph" where
  "absorb current_meta next_g =
     (let new_x = min (glyph_x current_meta) (glyph_x next_g);
          new_y = min (glyph_y current_meta) (glyph_y next_g);
          new_r = max (glyph_x current_meta + glyph_w current_meta) (glyph_x next_g + glyph_w next_g);
          new_b = max (glyph_y current_meta + glyph_h current_meta) (glyph_y next_g + glyph_h next_g);
          new_w = new_r - new_x;
          new_h = new_b - new_y
      in current_meta\<lparr>
           glyph_x := new_x, glyph_y := new_y, glyph_w := new_w, glyph_h := new_h,
           area := area current_meta + area next_g,
           center := (real_of_int new_x + real_of_int new_w / 2, real_of_int new_y + real_of_int new_h / 2),
           contours := contours current_meta @ contours next_g,
           total_len := total_len current_meta + total_len next_g\<rparr>)"

text \<open>
  The scan \<^verbatim>\<open>for next_g in candidates[1:]\<close>, with the accumulator \<^verbatim>\<open>current_meta\<close> and the
  output list \<^verbatim>\<open>merged\<close> as loop state; the final \<^verbatim>\<open>merged.append(current_meta)\<close> is the
  base case.
\<close>

fun merge_scan :: "merge_consts \<Rightarrow> glyph \<Rightarrow> glyph list \<Rightarrow> glyph list \<Rightarrow> glyph list" where
  "merge_scan k current_meta [] merged = merged @ [current_meta]"
| "merge_scan k current_meta (next_g # rest) merged =
     (if vertical_match k current_meta next_g \<and> horizontal_match k current_meta next_g
      then merge_scan k (absorb current_meta next_g) rest merged
      else merge_scan k next_g rest (merged @ [current_meta]))"

text \<open>
  Python's \<^verbatim>\<open>list.sort(key=...)\<close> is stable, as is \<^const>\<open>sort_key\<close>; the key
  \<^verbatim>\<open>(g['y'], g['x'])\<close> is compared lexicographically. The source mutates the dict of the
  first candidate in place; the glyph dicts of one list are distinct objects (they are built
  one by one in \<^verbatim>\<open>generate\<close>), so the model returns fresh values.
\<close>

definition safely_merge_words :: "merge_consts \<Rightarrow> glyph list \<Rightarrow> glyph list" where
  "safely_merge_words k glyphs =
     (if glyphs = [] then []
      else let candidates = filter (\<lambda>g. area g < area_limit k) glyphs;
               bypass = filter (\<lambda>g. \<not> area g < area_limit k) glyphs
           in if candidates = [] then bypass
              else (case sort_key (\<lambda>g. (glyph_y g, glyph_x g)) candidates of
                      [] \<Rightarrow> bypass
                    | current_meta # rest \<Rightarrow> merge_scan k current_meta rest [] @ bypass))"

section \<open>Path sequencing (\<^verbatim>\<open>_sort_contours_by_path\<close>)\<close>

subsection \<open>V8: reading order by line clustering\<close>

text \<open>\<^verbatim>\<open>sum(key(item) for item in line) / len(line)\<close>: the average of a key over a line.\<close>

definition line_avg :: "(glyph \<Rightarrow> real) \<Rightarrow> glyph list \<Rightarrow> real" where
  "line_avg key line = sum_list (map key line) / real (length line)"

text \<open>
  The inner \<^verbatim>\<open>for idx, line in enumerate(lines)\<close>: the first line whose average centre is
  within half of the larger height; \<open>None\<close> stands for \<^verbatim>\<open>best_line_idx = -1\<close>. The argument
  \<open>idx\<close> is the index of the head of the remaining lines.
\<close>

definition line_matches_v8 :: "glyph \<Rightarrow> glyph list \<Rightarrow> bool" where
  "line_matches_v8 g line =
     (let l_avg_h = line_avg (\<lambda>item. real_of_int (glyph_h item)) line;
          l_avg_cy = line_avg (\<lambda>item. snd (center item)) line
      in \<bar>snd (center g) - l_avg_cy\<bar> < max (real_of_int (glyph_h g)) l_avg_h * 0.5)"

fun find_line :: "(glyph \<Rightarrow> glyph list \<Rightarrow> bool) \<Rightarrow> glyph \<Rightarrow> nat \<Rightarrow> glyph list list \<Rightarrow> nat option" where
  "find_line matches g idx [] = None"
| "find_line matches g idx (line # rest) =
     (if matches g line then Some idx else find_line matches g (Suc idx) rest)"

text \<open>One round of \<^verbatim>\<open>for g in y_sorted\<close>: append to the line found, or open a new line.\<close>

definition place_glyph :: "(glyph \<Rightarrow> glyph list \<Rightarrow> bool) \<Rightarrow> glyph list list \<Rightarrow> glyph \<Rightarrow> glyph list list" where
  "place_glyph matches lines g =
     (case find_line matches g 0 lines of
        Some best_line_idx \<Rightarrow> lines[best_line_idx := lines ! best_line_idx @ [g]]
      | None \<Rightarrow> lines @ [[g]])"

definition cluster_lines :: "(glyph \<Rightarrow> glyph list \<Rightarrow> bool) \<Rightarrow> glyph list \<Rightarrow> glyph list list" where
  "cluster_lines matches y_sorted = foldl (place_glyph matches) [] y_sorted"

text \<open>Steps 3 and 4: lines by average y, glyphs of a line by x, then concatenated.\<close>

definition order_lines :: "glyph list list \<Rightarrow> glyph list" where
  "order_lines lines =
     concat (map (sort_key glyph_x)
                 (sort_key (line_avg (\<lambda>item. real_of_int (glyph_y item))) lines))"

definition sort_contours_by_path_v8 :: "glyph list \<Rightarrow> glyph list" where
  "sort_contours_by_path_v8 glyphs =
     (if glyphs = [] then []
      else let y_sorted = sort_key glyph_y glyphs
           in order_lines (cluster_lines line_matches_v8 y_sorted))"

subsection \<open>V7.3: nearest-neighbour pen simulation\<close>

text \<open>
  \<^verbatim>\<open>max(range(len(glyphs)), key=lambda i: glyphs[i]['area'])\<close> returns the first index of
  a largest area: the scan keeps the best index and replaces it only on a strictly larger key.
\<close>

fun argmax_area :: "glyph list \<Rightarrow> nat \<Rightarrow> nat \<Rightarrow> int \<Rightarrow> nat" where
  "argmax_area [] i best_i best_area = best_i"
| "argmax_area (g # gs) i best_i best_area =
     (if area g > best_area then argmax_area gs (Suc i) i (area g)
      else argmax_area gs (Suc i) best_i best_area)"

definition start_idx :: "glyph list \<Rightarrow> nat" where
  "start_idx glyphs = (case glyphs of [] \<Rightarrow> 0 | g # gs \<Rightarrow> argmax_area gs 1 0 (area g))"

text \<open>
  The scan for the closest unvisited glyph. \<^verbatim>\<open>best_idx\<close> starts at \<open>-1\<close> and
  \<^verbatim>\<open>min_dist\<close> at \<^verbatim>\<open>float('inf')\<close>, which is \<open>None\<close> here.
\<close>

definition sq_dist :: "real \<times> real \<Rightarrow> real \<times> real \<Rightarrow> real" where
  "sq_dist c d = (fst c - fst d)\<^sup>2 + (snd c - snd d)\<^sup>2"

fun closest_scan :: "real \<times> real \<Rightarrow> glyph list \<Rightarrow> int \<Rightarrow> int \<Rightarrow> real option \<Rightarrow> int" where
  "closest_scan c [] i best_idx min_dist = best_idx"
| "closest_scan c (cand # rest) i best_idx min_dist =
     (let dist = sq_dist c (center cand)
      in if (case min_dist of None \<Rightarrow> True | Some m \<Rightarrow> dist < m)
         then closest_scan c rest (i + 1) i (Some dist)
         else closest_scan c rest (i + 1) best_idx min_dist)"

text \<open>
  \<^verbatim>\<open>list.pop(i)\<close>: a negative index counts from the end, an index out of range raises
  IndexError.
\<close>

definition py_pop :: "'a list \<Rightarrow> int \<Rightarrow> py_error + ('a \<times> 'a list)" where
  "py_pop xs i =
     (if i < - int (length xs) \<or> int (length xs) \<le> i then Inl IndexError
      else (let k = nat (if i < 0 then i + int (length xs) else i)
            in Inr (xs ! k, take k xs @ drop (Suc k) xs)))"

function nn_loop :: "glyph \<Rightarrow> glyph list \<Rightarrow> glyph list \<Rightarrow> py_error + glyph list" where
  "nn_loop current unvisited ordered =
     (if unvisited = [] then Inr ordered
      else (case py_pop unvisited (closest_scan (center current) unvisited 0 (-1) None) of
              Inl e \<Rightarrow> Inl e
            | Inr (next_glyph, unvisited') \<Rightarrow> nn_loop next_glyph unvisited' (ordered @ [next_glyph])))"
  by pat_completeness auto
termination
  by (relation "measure (\<lambda>(current, unvisited, ordered). length unvisited)")
     (auto simp: py_pop_def Let_def split: if_splits)

definition sort_contours_by_path_v7_3 :: "glyph list \<Rightarrow> py_error + glyph list" where
  "sort_contours_by_path_v7_3 glyphs =
     (if glyphs = [] then Inr []
      else (case py_pop glyphs (int (start_idx glyphs)) of
              Inl e \<Rightarrow> Inl e
            | Inr (first, unvisited) \<Rightarrow> nn_loop first unvisited [first]))"

subsection \<open>V8.1: macro/micro split\<close>

definition MACRO_THRESHOLD :: int where
  "MACRO_THRESHOLD = 5000"

definition line_matches_v8_1 :: "glyph \<Rightarrow> glyph list \<Rightarrow> bool" where
  "line_matches_v8_1 g line =
     (let l_avg_cy = line_avg (\<lambda>item. snd (center item)) line
      in \<bar>snd (center g) - l_avg_cy\<bar> < real_of_int (max (glyph_h g) 30) * 1.5)"

text \<open>
  \<^verbatim>\<open>macro_objs.sort(key=area, reverse=True)\<close> keeps equal areas in their original order,
  which is the stable ascending sort on the negated key.
\<close>

definition sort_contours_by_path_v8_1 :: "glyph list \<Rightarrow> glyph list" where
  "sort_contours_by_path_v8_1 glyphs =
     (if glyphs = [] then []
      else let macro_objs = filter (\<lambda>g. area g \<ge> MACRO_THRESHOLD) glyphs;
               micro_objs = filter (\<lambda>g. \<not> area g \<ge> MACRO_THRESHOLD) glyphs;
               macro_sorted = sort_key (\<lambda>g. - area g) macro_objs;
               y_sorted = sort_key glyph_y micro_objs;
               sorted_micro = order_lines (cluster_lines line_matches_v8_1 y_sorted)
           in macro_sorted @ sorted_micro)"

section \<open>Assigning glyphs to segments\<close>

text \<open>
  The callers build the segment dicts from decoded JSON, so the value under a key can be
  any JSON value; the ones that matter here are null, a number, a string and a list.
\<close>

datatype py_value = PyNone | PyNum real | PyStr string | PyList "py_value list"

text \<open>Truthiness, as \<^verbatim>\<open>if v:\<close> tests it.\<close>

fun truthy :: "py_value \<Rightarrow> bool" where
  "truthy PyNone = False"
| "truthy (PyNum r) = (r \<noteq> 0)"
| "truthy (PyStr s) = (s \<noteq> [])"
| "truthy (PyList vs) = (vs \<noteq> [])"

text \<open>
  \<^verbatim>\<open>v[i]\<close> for a non-negative index: a list gives its element, a string a one-character
  string, both raise IndexError out of range; null and numbers are not subscriptable.
\<close>

fun py_subscript :: "py_value \<Rightarrow> nat \<Rightarrow> py_error + py_value" where
  "py_subscript (PyList vs) i = (if i < length vs then Inr (vs ! i) else Inl IndexError)"
| "py_subscript (PyStr s) i = (if i < length s then Inr (PyStr [s ! i]) else Inl IndexError)"
| "py_subscript PyNone i = Inl TypeError"
| "py_subscript (PyNum r) i = Inl TypeError"

text \<open>
  \<^verbatim>\<open>v[:20]\<close>: strings and lists can be sliced, null and numbers raise TypeError.
\<close>

fun py_slice_to :: "py_value \<Rightarrow> nat \<Rightarrow> py_error + py_value" where
  "py_slice_to (PyStr s) n = Inr (PyStr (take n s))"
| "py_slice_to (PyList vs) n = Inr (PyList (take n vs))"
| "py_slice_to PyNone n = Inl TypeError"
| "py_slice_to (PyNum r) n = Inl TypeError"

text \<open>
  A narration segment is a dict with the optional keys \<^verbatim>\<open>'position'\<close>, \<^verbatim>\<open>'duration'\<close>
  and (V6) \<^verbatim>\<open>'bbox'\<close>, meant to be a list \<^verbatim>\<open>[ymin, xmin, ymax, xmax]\<close> on a 0-1000
  scale. A missing key is \<open>None\<close>. The V6 caller also stores \<^verbatim>\<open>'desc'\<close>, the visual
  description of the step, which is null when the script part has none.
\<close>

record segment =
  position :: "int option"
  duration :: "real option"
  bbox :: "py_value option"

record v6_segment = segment +
  desc :: "py_value option"

subsection \<open>V8: equal-width vertical strips (\<^verbatim>\<open>generate\<close>, step 3)\<close>

definition num_sections :: "segment list \<Rightarrow> int" where
  "num_sections segs = (if segs \<noteq> [] then int (length segs) else 1)"

definition section_width :: "int \<Rightarrow> segment list \<Rightarrow> real" where
  "section_width new_w segs = real_of_int new_w / real_of_int (num_sections segs)"

text \<open>A float division by zero raises in Python; it is the only way this step can fail.\<close>

definition glyph_section_idx :: "int \<Rightarrow> segment list \<Rightarrow> 'a glyph_box_scheme \<Rightarrow> py_error + int" where
  "glyph_section_idx new_w segs g =
     (let glyph_center_x = real_of_int (glyph_x g) + real_of_int (glyph_w g) / 2
      in if section_width new_w segs = 0 then Inl ZeroDivisionError
         else Inr (min (py_int (glyph_center_x / section_width new_w segs)) (num_sections segs - 1)))"

fun assign_sections ::
  "int \<Rightarrow> segment list \<Rightarrow> (int \<rightharpoonup> glyph list) \<Rightarrow> glyph list \<Rightarrow> py_error + (int \<rightharpoonup> glyph list)" where
  "assign_sections new_w segs glyph_sections [] = Inr glyph_sections"
| "assign_sections new_w segs glyph_sections (g # rest) =
     (case glyph_section_idx new_w segs g of
        Inl e \<Rightarrow> Inl e
      | Inr section_idx \<Rightarrow>
          assign_sections new_w segs
            (glyph_sections(section_idx \<mapsto>
               (case glyph_sections section_idx of None \<Rightarrow> [] | Some l \<Rightarrow> l) @ [g]))
            rest)"

text \<open>Step 4: every section is merged into words and put into drawing order.\<close>

definition process_sections :: "(int \<rightharpoonup> glyph list) \<Rightarrow> (int \<rightharpoonup> glyph list)" where
  "process_sections glyph_sections =
     (\<lambda>sec_idx. map_option (\<lambda>g_list. sort_contours_by_path_v8 (safely_merge_words v8_consts g_list))
                            (glyph_sections sec_idx))"

definition build_glyph_sections :: "int \<Rightarrow> segment list \<Rightarrow> glyph list \<Rightarrow> py_error + (int \<rightharpoonup> glyph list)" where
  "build_glyph_sections new_w segs glyphs =
     (case assign_sections new_w segs Map.empty glyphs of
        Inl e \<Rightarrow> Inl e
      | Inr glyph_sections \<Rightarrow> Inr (process_sections glyph_sections))"

subsection \<open>V6: external bounding boxes (\<^verbatim>\<open>_cluster_glyphs_by_bbox\<close>)\<close>

record seg_meta =
  meta_idx :: nat
  meta_rect :: "real \<times> real \<times> real \<times> real"
  meta_area :: real
  meta_center :: "real \<times> real"

text \<open>
  One coordinate of the box in pixels, \<^verbatim>\<open>(bbox[i] / 1000.0) * extent\<close>: the subscript can
  raise, and so can the division when the entry is not a number.
\<close>

definition bbox_coord :: "py_value \<Rightarrow> nat \<Rightarrow> real \<Rightarrow> py_error + real" where
  "bbox_coord b i extent =
     (case py_subscript b i of
        Inl e \<Rightarrow> Inl e
      | Inr v \<Rightarrow> (case v of PyNum r \<Rightarrow> Inr ((r / 1000) * extent) | _ \<Rightarrow> Inl TypeError))"

text \<open>
  One round of the loop that fills \<^verbatim>\<open>seg_meta\<close>: \<open>None\<close> for a missing, falsy or
  degenerate box, an error when the box does not hold four numbers.
\<close>

definition seg_meta_of :: "real \<Rightarrow> real \<Rightarrow> nat \<Rightarrow> 'a segment_scheme \<Rightarrow> py_error + seg_meta option" where
  "seg_meta_of width height i seg =
     (case bbox seg of
        None \<Rightarrow> Inr None
      | Some b \<Rightarrow>
          if \<not> truthy b then Inr None
          else (case bbox_coord b 0 height of
                  Inl e \<Rightarrow> Inl e
                | Inr b_ymin \<Rightarrow>
                    (case bbox_coord b 1 width of
                       Inl e \<Rightarrow> Inl e
                     | Inr b_xmin \<Rightarrow>
                         (case bbox_coord b 2 height of
                            Inl e \<Rightarrow> Inl e
                          | Inr b_ymax \<Rightarrow>
                              (case bbox_coord b 3 width of
                                 Inl e \<Rightarrow> Inl e
                               | Inr b_xmax \<Rightarrow>
                                   if b_xmax \<le> b_xmin \<or> b_ymax \<le> b_ymin then Inr None
                                   else Inr (Some \<lparr>meta_idx = i,
                                                   meta_rect = (b_xmin, b_ymin, b_xmax, b_ymax),
                                                   meta_area = (b_ymax - b_ymin) * (b_xmax - b_xmin),
                                                   meta_center = ((b_xmin + b_xmax) / 2, (b_ymin + b_ymax) / 2)\<rparr>))))))"

fun seg_meta_loop :: "real \<Rightarrow> real \<Rightarrow> nat \<Rightarrow> 'a segment_scheme list \<Rightarrow> py_error + seg_meta option list" where
  "seg_meta_loop width height i [] = Inr []"
| "seg_meta_loop width height i (seg # rest) =
     (case seg_meta_of width height i seg of
        Inl e \<Rightarrow> Inl e
      | Inr meta \<Rightarrow>
          (case seg_meta_loop width height (Suc i) rest of
             Inl e \<Rightarrow> Inl e
           | Inr metas \<Rightarrow> Inr (meta # metas)))"

definition seg_metas :: "real \<Rightarrow> real \<Rightarrow> 'a segment_scheme list \<Rightarrow> py_error + seg_meta option list" where
  "seg_metas width height segs = seg_meta_loop width height 0 segs"

text \<open>
  The glyph centre as V6 computes it: \<^verbatim>\<open>x + w / 2.0\<close> and \<^verbatim>\<open>y + h // 2.0\<close>
  (the second is a floor division).
\<close>

definition glyph_gx :: "'a glyph_box_scheme \<Rightarrow> real" where
  "glyph_gx g = real_of_int (glyph_x g) + real_of_int (glyph_w g) / 2"

definition glyph_gy :: "'a glyph_box_scheme \<Rightarrow> real" where
  "glyph_gy g = real_of_int (glyph_y g) + real_of_int \<lfloor>real_of_int (glyph_h g) / 2\<rfloor>"

definition inside :: "real \<Rightarrow> real \<Rightarrow> seg_meta \<Rightarrow> bool" where
  "inside gx gy meta =
     (case meta_rect meta of (xmin, ymin, xmax, ymax) \<Rightarrow>
        xmin \<le> gx \<and> gx \<le> xmax \<and> ymin \<le> gy \<and> gy \<le> ymax)"

text \<open>
  The scan over the boxes for the smallest container; \<open>None\<close> is \<^verbatim>\<open>best_seg_idx = -1\<close>
  and \<^verbatim>\<open>min_container_area = float('inf')\<close>.
\<close>

fun container_scan :: "real \<Rightarrow> real \<Rightarrow> seg_meta option list \<Rightarrow> (nat \<times> real) option \<Rightarrow> (nat \<times> real) option" where
  "container_scan gx gy [] best = best"
| "container_scan gx gy (None # rest) best = container_scan gx gy rest best"
| "container_scan gx gy (Some meta # rest) best =
     (if inside gx gy meta \<and> (case best of None \<Rightarrow> True | Some (_, min_container_area) \<Rightarrow> meta_area meta < min_container_area)
      then container_scan gx gy rest (Some (meta_idx meta, meta_area meta))
      else container_scan gx gy rest best)"

definition centre_dist :: "real \<Rightarrow> real \<Rightarrow> seg_meta \<Rightarrow> real" where
  "centre_dist gx gy meta = sqrt ((gx - fst (meta_center meta))\<^sup>2 + (gy - snd (meta_center meta))\<^sup>2)"

text \<open>The scan for the nearest centre: \<^verbatim>\<open>best_idx = 0\<close>, \<^verbatim>\<open>min_dist = float('inf')\<close>.\<close>

fun nearest_scan :: "real \<Rightarrow> real \<Rightarrow> seg_meta list \<Rightarrow> nat \<Rightarrow> real option \<Rightarrow> nat" where
  "nearest_scan gx gy [] best_idx min_dist = best_idx"
| "nearest_scan gx gy (meta # rest) best_idx min_dist =
     (let dist = centre_dist gx gy meta
      in if (case min_dist of None \<Rightarrow> True | Some m \<Rightarrow> dist < m)
         then nearest_scan gx gy rest (meta_idx meta) (Some dist)
         else nearest_scan gx gy rest best_idx min_dist)"

text \<open>\<^verbatim>\<open>d[k].append(g)\<close> on a dict of lists: a missing key raises KeyError.\<close>

definition dict_append :: "(nat \<rightharpoonup> 'g list) \<Rightarrow> nat \<Rightarrow> 'g \<Rightarrow> py_error + (nat \<rightharpoonup> 'g list)" where
  "dict_append d k g = (case d k of None \<Rightarrow> Inl KeyError | Some l \<Rightarrow> Inr (d(k \<mapsto> l @ [g])))"

text \<open>
  The first loop over the glyphs: a glyph inside some box goes to its bin, the others are
  collected in \<^verbatim>\<open>unassigned\<close>.
\<close>

fun first_pass ::
  "seg_meta option list \<Rightarrow> (nat \<rightharpoonup> 'a glyph_box_scheme list) \<Rightarrow> 'a glyph_box_scheme list \<Rightarrow> 'a glyph_box_scheme list
   \<Rightarrow> py_error + ((nat \<rightharpoonup> 'a glyph_box_scheme list) \<times> 'a glyph_box_scheme list)" where
  "first_pass metas segment_glyphs unassigned [] = Inr (segment_glyphs, unassigned)"
| "first_pass metas segment_glyphs unassigned (g # rest) =
     (case container_scan (glyph_gx g) (glyph_gy g) metas None of
        Some (best_seg_idx, _) \<Rightarrow>
          (case dict_append segment_glyphs best_seg_idx g of
             Inl e \<Rightarrow> Inl e
           | Inr segment_glyphs' \<Rightarrow> first_pass metas segment_glyphs' unassigned rest)
      | None \<Rightarrow> first_pass metas segment_glyphs (unassigned @ [g]) rest)"

text \<open>The second loop: the unassigned glyphs go to the nearest centre, or to segment 0.\<close>

fun second_pass ::
  "seg_meta option list \<Rightarrow> (nat \<rightharpoonup> 'a glyph_box_scheme list) \<Rightarrow> 'a glyph_box_scheme list
   \<Rightarrow> py_error + (nat \<rightharpoonup> 'a glyph_box_scheme list)" where
  "second_pass metas segment_glyphs [] = Inr segment_glyphs"
| "second_pass metas segment_glyphs (g # rest) =
     (let valid_metas = map the (filter (\<lambda>m. m \<noteq> None) metas)
      in case (if valid_metas \<noteq> []
               then dict_append segment_glyphs (nearest_scan (glyph_gx g) (glyph_gy g) valid_metas 0 None) g
               else dict_append segment_glyphs 0 g) of
           Inl e \<Rightarrow> Inl e
         | Inr segment_glyphs' \<Rightarrow> second_pass metas segment_glyphs' rest)"

definition init_bins :: "nat \<Rightarrow> (nat \<rightharpoonup> 'g list)" where
  "init_bins n = (\<lambda>i. if i < n then Some [] else None)"

text \<open>
  The two loops over the glyphs, one after the other, starting from an empty bin for every
  segment.
\<close>

definition assign_glyphs ::
  "seg_meta option list \<Rightarrow> 'b list \<Rightarrow> 'a glyph_box_scheme list \<Rightarrow> py_error + (nat \<rightharpoonup> 'a glyph_box_scheme list)" where
  "assign_glyphs metas segs glyphs =
     (case first_pass metas (init_bins (length segs)) [] glyphs of
        Inl e \<Rightarrow> Inl e
      | Inr (segment_glyphs, unassigned) \<Rightarrow>
          if unassigned \<noteq> [] \<and> segs \<noteq> []
          then second_pass metas segment_glyphs unassigned
          else Inr segment_glyphs)"

text \<open>
  The loop at the end of the function prints, for every segment, the number of glyphs in
  its bin and the first 20 characters of its description, \<^verbatim>\<open>segments[i].get('desc', 'N/A')\<close>.
  What is printed is returned here as a list of lines; the lookup of the bin and the slice
  of the description can raise.
\<close>

fun distribution_report ::
  "(nat \<rightharpoonup> 'g list) \<Rightarrow> nat \<Rightarrow> v6_segment list \<Rightarrow> py_error + (py_value \<times> nat) list" where
  "distribution_report segment_glyphs i [] = Inr []"
| "distribution_report segment_glyphs i (seg # rest) =
     (case segment_glyphs i of
        None \<Rightarrow> Inl KeyError
      | Some bin \<Rightarrow>
          (case py_slice_to (case desc seg of None \<Rightarrow> PyStr ''N/A'' | Some d \<Rightarrow> d) 20 of
             Inl e \<Rightarrow> Inl e
           | Inr shown \<Rightarrow>
               (case distribution_report segment_glyphs (Suc i) rest of
                  Inl e \<Rightarrow> Inl e
                | Inr printed \<Rightarrow> Inr ((shown, length bin) # printed))))"

definition cluster_glyphs_by_bbox ::
  "'a glyph_box_scheme list \<Rightarrow> real \<Rightarrow> real \<Rightarrow> v6_segment list \<Rightarrow> py_error + (nat \<rightharpoonup> 'a glyph_box_scheme list)" where
  "cluster_glyphs_by_bbox glyphs width height segs =
     (if segs = [] then Inr [0 \<mapsto> glyphs]
      else (case seg_metas width height segs of
              Inl e \<Rightarrow> Inl e
            | Inr metas \<Rightarrow>
                (case assign_glyphs metas segs glyphs of
                   Inl e \<Rightarrow> Inl e
                 | Inr segment_glyphs \<Rightarrow>
                     (case distribution_report segment_glyphs 0 segs of
                        Inl e \<Rightarrow> Inl e
                      | Inr printed \<Rightarrow> Inr segment_glyphs))))"

section \<open>Ink extraction (\<^verbatim>\<open>_get_cleaned_image\<close>, V8)\<close>

text \<open>
  The grey image is a list of rows of 8-bit pixels. The OpenCV operations applied to it are
  not part of the repository; the extractor is modelled by the expression it builds out of
  them, so that what is applied, in which order and with which parameters can be read off.
\<close>

datatype thresh_type = THRESH_BINARY | THRESH_BINARY_INV

datatype cv_image =
    Gray "8 word list list"
  | GaussianBlur cv_image "nat \<times> nat"
  | ThresholdOtsu cv_image thresh_type
  | AdaptiveThresholdGaussian cv_image thresh_type nat int
  | MorphOpenRect cv_image "nat \<times> nat"

text \<open>
  \<^verbatim>\<open>np.mean(gray)\<close>. Each of the OpenCV operations above is documented to return an image
  of the size of its source; \<open>shape\<close> records that (rows, columns).
\<close>

definition mean_brightness :: "8 word list list \<Rightarrow> real" where
  "mean_brightness gray = real (sum_list (map unat (concat gray))) / real (length (concat gray))"

fun shape :: "cv_image \<Rightarrow> nat \<times> nat" where
  "shape (Gray rows) = (length rows, (case rows of [] \<Rightarrow> 0 | r # _ \<Rightarrow> length r))"
| "shape (GaussianBlur src ksize) = shape src"
| "shape (ThresholdOtsu src ty) = shape src"
| "shape (AdaptiveThresholdGaussian src ty block_size c) = shape src"
| "shape (MorphOpenRect src ksize) = shape src"

definition is_dark_bg :: "8 word list list \<Rightarrow> bool" where
  "is_dark_bg gray = (mean_brightness gray < 127)"

definition thresh_type_of :: "bool \<Rightarrow> thresh_type" where
  "thresh_type_of dark = (if dark then THRESH_BINARY else THRESH_BINARY_INV)"

text \<open>
  What OpenCV documents for the two polarities: with \<^verbatim>\<open>THRESH_BINARY\<close> a pixel above the
  threshold becomes foreground (255), with \<^verbatim>\<open>THRESH_BINARY_INV\<close> a pixel not above it.
\<close>

definition apply_thresh :: "thresh_type \<Rightarrow> nat \<Rightarrow> 8 word \<Rightarrow> 8 word" where
  "apply_thresh ty thr v =
     (case ty of
        THRESH_BINARY \<Rightarrow> (if unat v > thr then 255 else 0)
      | THRESH_BINARY_INV \<Rightarrow> (if unat v > thr then 0 else 255))"

text \<open>
  The method sets \<^verbatim>\<open>self.is_dark_bg\<close> and returns the ink map: the pair of both is the
  result here.
\<close>

definition get_cleaned_image :: "string \<Rightarrow> 8 word list list \<Rightarrow> bool \<times> cv_image" where
  "get_cleaned_image style gray =
     (let dark = is_dark_bg gray;
          ty = thresh_type_of dark
      in if style = ''solid'' \<or> style = ''normal''
         then (dark, ThresholdOtsu (GaussianBlur (Gray gray) (3, 3)) ty)
         else (dark, MorphOpenRect (AdaptiveThresholdGaussian (Gray gray) ty 11 2) (2, 2)))"

section \<open>Timeline and frame rendering (\<^verbatim>\<open>generate\<close> and \<^verbatim>\<open>make_frame\<close>, V8)\<close>

type_synonym colour = "8 word \<times> 8 word \<times> 8 word"

definition WIDTH :: int where
  "WIDTH = 1920"

definition HEIGHT :: int where
  "HEIGHT = 1080"

definition on_canvas :: "point \<Rightarrow> bool" where
  "on_canvas p = (0 \<le> fst p \<and> fst p < WIDTH \<and> 0 \<le> snd p \<and> snd p < HEIGHT)"

text \<open>
  A fresh canvas or frame: \<^verbatim>\<open>np.zeros((h, w, 3))\<close> for a dark background,
  \<^verbatim>\<open>np.full((h, w, 3), 255)\<close> otherwise.
\<close>

definition blank_canvas :: "bool \<Rightarrow> point \<Rightarrow> colour" where
  "blank_canvas dark p = (if dark then (0, 0, 0) else (255, 255, 255))"

text \<open>
  The reference canvas: a fresh canvas, with the pixels of the resized original copied
  where the ink map is set, inside the letterbox window.
\<close>

definition full_canvas_ref ::
  "bool \<Rightarrow> int \<Rightarrow> int \<Rightarrow> int \<Rightarrow> int \<Rightarrow> (point \<Rightarrow> 8 word) \<Rightarrow> (point \<Rightarrow> colour) \<Rightarrow> point \<Rightarrow> colour" where
  "full_canvas_ref dark x_offset y_offset new_w new_h ink_map original_resized p =
     (let ix = fst p - x_offset; iy = snd p - y_offset
      in if 0 \<le> ix \<and> ix < new_w \<and> 0 \<le> iy \<and> iy < new_h \<and> ink_map (ix, iy) > 0
         then original_resized (ix, iy)
         else blank_canvas dark p)"

subsection \<open>Segment timing\<close>

record seg_info =
  section_idx :: int
  seg_start :: real
  seg_end :: real

fun timing_loop :: "nat \<Rightarrow> real \<Rightarrow> segment list \<Rightarrow> seg_info list" where
  "timing_loop seq_idx current_time [] = []"
| "timing_loop seq_idx current_time (seg # rest) =
     (let seg_duration = (case duration seg of None \<Rightarrow> 3.0 | Some d \<Rightarrow> d)
      in \<lparr>section_idx = int seq_idx, seg_start = current_time, seg_end = current_time + seg_duration\<rparr>
         # timing_loop (Suc seq_idx) (current_time + seg_duration) rest)"

definition segment_times :: "segment list \<Rightarrow> seg_info list" where
  "segment_times segs =
     (if segs \<noteq> []
      then timing_loop 0 0 (sort_key (\<lambda>s. case position s of None \<Rightarrow> 0 | Some p \<Rightarrow> p) segs)
      else [])"

subsection \<open>What a frame paints onto the reveal mask\<close>

text \<open>
  The two OpenCV calls of \<^verbatim>\<open>make_frame\<close>, with value 255:
  \<^verbatim>\<open>cv2.drawContours(reveal_mask, [pts], -1, 255, -1)\<close> (filled) and
  \<^verbatim>\<open>cv2.polylines(reveal_mask, [pts], False, 255, thickness)\<close> (an open thick polyline).
\<close>

datatype mask_cmd =
    DrawContoursFilled "point list"
  | Polylines "point list" nat

definition fill_glyph :: "glyph \<Rightarrow> mask_cmd list" where
  "fill_glyph g = map (\<lambda>c. DrawContoursFilled (pts c)) (contours g)"

definition fill_glyphs :: "glyph list \<Rightarrow> mask_cmd list" where
  "fill_glyphs gs = concat (map fill_glyph gs)"

definition thickness :: "string \<Rightarrow> nat" where
  "thickness style = (if style = ''pencil'' then 3 else 15)"

text \<open>
  The loop over the contours of the active glyph, with \<^verbatim>\<open>current_len\<close> as loop state;
  the \<^verbatim>\<open>break\<close> ends it at the first contour that is not covered entirely.
\<close>

fun active_cmds :: "string \<Rightarrow> real \<Rightarrow> real \<Rightarrow> contour list \<Rightarrow> mask_cmd list" where
  "active_cmds style target_glyph_len current_len [] = []"
| "active_cmds style target_glyph_len current_len (c # cs) =
     (let c_len = len c
      in if current_len + c_len \<le> target_glyph_len
         then DrawContoursFilled (pts c) # active_cmds style target_glyph_len (current_len + c_len) cs
         else (let needed = target_glyph_len - current_len
               in if needed > 0 \<and> c_len > 0
                  then (let num_pts = length (pts c);
                            pts_to_draw = py_int ((needed / c_len) * real num_pts)
                        in if pts_to_draw > 0
                           then [Polylines (take (nat pts_to_draw) (pts c)) (thickness style)]
                           else [])
                  else []))"

text \<open>The PROGRESSIVE DRAW branch, for \<open>seg_start \<le> t < seg_end\<close>.\<close>

definition current_glyph_float :: "real \<Rightarrow> seg_info \<Rightarrow> glyph list \<Rightarrow> real" where
  "current_glyph_float t seg glyphs_in_section =
     real (length glyphs_in_section) * ((t - seg_start seg) / (seg_end seg - seg_start seg))"

definition progressive_cmds :: "string \<Rightarrow> real \<Rightarrow> seg_info \<Rightarrow> glyph list \<Rightarrow> mask_cmd list" where
  "progressive_cmds style t seg glyphs_in_section =
     (let total_glyphs = int (length glyphs_in_section);
          current_glyph_idx = py_int (current_glyph_float t seg glyphs_in_section)
      in (if current_glyph_idx > 0 then fill_glyphs (take (nat current_glyph_idx) glyphs_in_section) else [])
         @ (if current_glyph_idx < total_glyphs
            then (let active_glyph = glyphs_in_section ! nat current_glyph_idx;
                      intra_progress = current_glyph_float t seg glyphs_in_section - real_of_int current_glyph_idx;
                      target_glyph_len = total_len active_glyph * intra_progress
                  in active_cmds style target_glyph_len 0 (contours active_glyph))
            else []))"

text \<open>One round of \<^verbatim>\<open>for seg_info in segment_times\<close>.\<close>

definition segment_cmds :: "string \<Rightarrow> (int \<rightharpoonup> glyph list) \<Rightarrow> real \<Rightarrow> seg_info \<Rightarrow> mask_cmd list" where
  "segment_cmds style glyph_sections t seg =
     (case glyph_sections (section_idx seg) of
        None \<Rightarrow> []
      | Some glyphs_in_section \<Rightarrow>
          if glyphs_in_section = [] then []
          else if t < seg_start seg then []
          else if t \<ge> seg_end seg then fill_glyphs glyphs_in_section
          else progressive_cmds style t seg glyphs_in_section)"

text \<open>
  The closure of \<^verbatim>\<open>make_frame\<close>: what \<^verbatim>\<open>generate\<close> has computed when the clip is rendered.
\<close>

record render_env =
  env_is_dark_bg :: bool
  env_style :: string
  env_segments :: "segment list"
  env_glyph_sections :: "int \<rightharpoonup> glyph list"
  env_full_canvas_ref :: "point \<Rightarrow> colour"

text \<open>
  The drawing commands of a frame; \<open>None\<close> is the other branch, \<^verbatim>\<open>reveal_mask[:] = 255\<close>.
\<close>

definition reveal_cmds :: "render_env \<Rightarrow> real \<Rightarrow> mask_cmd list option" where
  "reveal_cmds env t =
     (if env_segments env \<noteq> [] \<and> segment_times (env_segments env) \<noteq> []
      then Some (concat (map (segment_cmds (env_style env) (env_glyph_sections env) t)
                             (segment_times (env_segments env))))
      else None)"

text \<open>
  A rasterizer says which pixels a drawing command sets; OpenCV clips to the canvas.
\<close>

type_synonym rasterizer = "mask_cmd \<Rightarrow> point \<Rightarrow> bool"

definition reveal_mask :: "rasterizer \<Rightarrow> render_env \<Rightarrow> real \<Rightarrow> point \<Rightarrow> bool" where
  "reveal_mask raster env t p =
     (on_canvas p \<and>
      (case reveal_cmds env t of
         None \<Rightarrow> True
       | Some cmds \<Rightarrow> list_ex (\<lambda>cmd. raster cmd p) cmds))"

text \<open>The frame in BGR, then \<^verbatim>\<open>frame[:, :, ::-1]\<close>, which reverses the channels.\<close>

definition reverse_channels :: "colour \<Rightarrow> colour" where
  "reverse_channels c = (case c of (b, g, r) \<Rightarrow> (r, g, b))"

definition make_frame :: "rasterizer \<Rightarrow> render_env \<Rightarrow> real \<Rightarrow> point \<Rightarrow> colour" where
  "make_frame raster env t p =
     reverse_channels
       (if reveal_mask raster env t p then env_full_canvas_ref env p
        else blank_canvas (env_is_dark_bg env) p)"

subsection \<open>The closure built by \<^verbatim>\<open>generate\<close>\<close>

text \<open>
  What \<^verbatim>\<open>generate\<close> computes before rendering. The grey image, the pixels of the ink
  map (the value of the expression built by the extractor), the detected glyphs and the
  resized original come from OpenCV and are inputs here. The only step that can fail in
  the model is the section assignment.
\<close>

definition generate_env ::
  "string \<Rightarrow> segment list \<Rightarrow> 8 word list list \<Rightarrow> (point \<Rightarrow> 8 word) \<Rightarrow> (point \<Rightarrow> colour)
   \<Rightarrow> int \<Rightarrow> int \<Rightarrow> glyph list \<Rightarrow> py_error + render_env" where
  "generate_env style segs gray ink_map original_resized new_w new_h glyphs =
     (let y_offset = (HEIGHT - new_h) div 2;
          x_offset = (WIDTH - new_w) div 2;
          dark = fst (get_cleaned_image style gray)
      in case build_glyph_sections new_w segs glyphs of
           Inl e \<Rightarrow> Inl e
         | Inr glyph_sections \<Rightarrow>
             Inr \<lparr>env_is_dark_bg = dark,
                  env_style = style,
                  env_segments = segs,
                  env_glyph_sections = glyph_sections,
                  env_full_canvas_ref =
                    full_canvas_ref dark x_offset y_offset new_w new_h ink_map original_resized\<rparr>)"

section \<open>The V5 engine: grid rows and constant-speed reveal\<close>

text \<open>
  V5 glyphs carry their raw outlines (lists of points) and the summed perimeter. The arc
  length of an outline is computed by OpenCV and is a parameter \<open>arc_length\<close> below.
\<close>

record v5_glyph = glyph_box +
  v5_contours :: "point list list"
  perimeter :: real

subsection \<open>\<^verbatim>\<open>_cluster_into_grid_rows\<close>\<close>

text \<open>\<^verbatim>\<open>np.median\<close> of a non-empty list of integers.\<close>

definition np_median :: "int list \<Rightarrow> real" where
  "np_median xs =
     (let s = sort xs; n = length s
      in if even n then (real_of_int (s ! (n div 2 - 1)) + real_of_int (s ! (n div 2))) / 2
         else real_of_int (s ! (n div 2)))"

definition row_height :: "v5_glyph list \<Rightarrow> int \<Rightarrow> int" where
  "row_height glyphs img_height =
     (let heights = map glyph_h (filter (\<lambda>g. glyph_h g > 5) glyphs)
      in if heights \<noteq> [] then max 30 (py_int (np_median heights * 2.5))
         else max 30 (img_height div 15))"

definition row_idx :: "int \<Rightarrow> v5_glyph \<Rightarrow> int" where
  "row_idx rh g = (glyph_y g + glyph_h g div 2) div rh"

text \<open>
  The dict \<^verbatim>\<open>row_assignments\<close> collects the glyphs of each row index in input order; its
  sorted keys are the distinct row indices in ascending order.
\<close>

definition cluster_into_grid_rows :: "v5_glyph list \<Rightarrow> int \<Rightarrow> v5_glyph list list" where
  "cluster_into_grid_rows glyphs img_height =
     (if glyphs = [] then []
      else let rh = row_height glyphs img_height;
               sorted_row_indices = sort (remdups (map (row_idx rh) glyphs))
           in map (\<lambda>k. sort_key glyph_x (filter (\<lambda>g. row_idx rh g = k) glyphs)) sorted_row_indices)"

subsection \<open>What \<^verbatim>\<open>generate\<close> precomputes\<close>

definition shift_contour :: "int \<Rightarrow> int \<Rightarrow> point list \<Rightarrow> point list" where
  "shift_contour x_offset y_offset cnt = map (\<lambda>q. (fst q + x_offset, snd q + y_offset)) cnt"

text \<open>The running sums \<^verbatim>\<open>cumulative_perimeters\<close>.\<close>

fun running_sums :: "real \<Rightarrow> real list \<Rightarrow> real list" where
  "running_sums running_sum [] = []"
| "running_sums running_sum (x # xs) = (running_sum + x) # running_sums (running_sum + x) xs"

text \<open>
  A V5 section holds units: the shifted outlines of a glyph and its id. A cached mask is
  kept as the list of drawing commands that produced it.
\<close>

record v5_unit =
  unit_contours :: "point list list"
  unit_id :: int

fun v5_assign_sections ::
  "int \<Rightarrow> int \<Rightarrow> int \<Rightarrow> segment list \<Rightarrow> (int \<rightharpoonup> v5_unit list) \<Rightarrow> v5_glyph list
   \<Rightarrow> py_error + (int \<rightharpoonup> v5_unit list)" where
  "v5_assign_sections x_offset y_offset new_w segs glyph_sections [] = Inr glyph_sections"
| "v5_assign_sections x_offset y_offset new_w segs glyph_sections (g # rest) =
     (case glyph_section_idx new_w segs g of
        Inl e \<Rightarrow> Inl e
      | Inr sec_idx \<Rightarrow>
          v5_assign_sections x_offset y_offset new_w segs
            (glyph_sections(sec_idx \<mapsto>
               (case glyph_sections sec_idx of None \<Rightarrow> [] | Some l \<Rightarrow> l)
               @ [\<lparr>unit_contours = map (shift_contour x_offset y_offset) (v5_contours g),
                    unit_id = glyph_id g\<rparr>]))
            rest)"

text \<open>
  One round of the loop \<^verbatim>\<open>for cache_idx in range(0, len(all_contours) + 1, cache_interval)\<close>
  that fills \<^verbatim>\<open>cached_masks\<close>.
\<close>

definition cache_step ::
  "point list list \<Rightarrow> nat \<Rightarrow> (nat \<rightharpoonup> mask_cmd list) \<Rightarrow> nat \<Rightarrow> (nat \<rightharpoonup> mask_cmd list)" where
  "cache_step all_cnts cache_interval cached_masks cache_idx =
     (if cache_idx = 0 then cached_masks(0 \<mapsto> [])
      else cached_masks(cache_idx \<mapsto>
             (case cached_masks (cache_idx - cache_interval) of None \<Rightarrow> [] | Some cached_mask \<Rightarrow> cached_mask)
             @ map (\<lambda>j. DrawContoursFilled (all_cnts ! j))
                   [cache_idx - cache_interval ..< min cache_idx (length all_cnts)]))"

definition build_cached_masks :: "point list list \<Rightarrow> nat \<Rightarrow> (nat \<rightharpoonup> mask_cmd list)" where
  "build_cached_masks all_cnts cache_interval =
     foldl (cache_step all_cnts cache_interval) Map.empty
           (map (\<lambda>k. k * cache_interval) [0 ..< (length all_cnts + cache_interval) div cache_interval])"

record v5_env =
  v5_is_dark_bg :: bool
  v5_segments :: "segment list"
  v5_glyph_sections :: "int \<rightharpoonup> v5_unit list"
  v5_all_contours :: "point list list"
  v5_total_perimeter :: real
  v5_cumulative_perimeters :: "real list"
  v5_cache_interval :: nat
  v5_cached_masks :: "nat \<rightharpoonup> mask_cmd list"
  v5_drawing_time :: real
  v5_full_canvas_ref :: "point \<Rightarrow> colour"

definition v5_generate_env ::
  "(point list \<Rightarrow> real) \<Rightarrow> segment list \<Rightarrow> real \<Rightarrow> bool \<Rightarrow> (point \<Rightarrow> 8 word) \<Rightarrow> (point \<Rightarrow> colour)
   \<Rightarrow> int \<Rightarrow> int \<Rightarrow> v5_glyph list \<Rightarrow> py_error + v5_env" where
  "v5_generate_env arc_length segs clip_duration dark ink_map original_resized new_w new_h glyphs =
     (let y_offset = (HEIGHT - new_h) div 2;
          x_offset = (WIDTH - new_w) div 2;
          ordered_glyphs = concat (cluster_into_grid_rows glyphs new_h);
          raw_contours = concat (map v5_contours ordered_glyphs);
          all_cnts = map (shift_contour x_offset y_offset) raw_contours;
          cache_interval = max 1 (length all_cnts div 20)
      in case v5_assign_sections x_offset y_offset new_w segs Map.empty ordered_glyphs of
           Inl e \<Rightarrow> Inl e
         | Inr glyph_sections \<Rightarrow>
             Inr \<lparr>v5_is_dark_bg = dark,
                  v5_segments = segs,
                  v5_glyph_sections = glyph_sections,
                  v5_all_contours = all_cnts,
                  v5_total_perimeter = sum_list (map arc_length raw_contours),
                  v5_cumulative_perimeters = running_sums 0 (map arc_length all_cnts),
                  v5_cache_interval = cache_interval,
                  v5_cached_masks = build_cached_masks all_cnts cache_interval,
                  v5_drawing_time = min 5.0 (clip_duration * 0.4),
                  v5_full_canvas_ref =
                    full_canvas_ref dark x_offset y_offset new_w new_h ink_map original_resized\<rparr>)"

subsection \<open>\<^verbatim>\<open>make_frame\<close>\<close>

text \<open>
  The binary search for the cut-off; \<open>mid\<close> stays below \<open>right\<close>, which starts at the length
  of the table, so the table is read in range.
\<close>

function v5_cutoff :: "real list \<Rightarrow> real \<Rightarrow> nat \<Rightarrow> nat \<Rightarrow> nat" where
  "v5_cutoff cum target_len left right =
     (if left < right
      then (let mid = (left + right) div 2
            in if cum ! mid \<le> target_len then v5_cutoff cum target_len (mid + 1) right
               else v5_cutoff cum target_len left mid)
      else left)"
  by pat_completeness auto
termination
  by (relation "measure (\<lambda>(cum, target_len, left, right). right - left)") auto

declare v5_cutoff.simps [simp del]

definition v5_fill_unit :: "v5_unit \<Rightarrow> mask_cmd list" where
  "v5_fill_unit glyph_unit = map DrawContoursFilled (unit_contours glyph_unit)"

text \<open>The segment branch: whole glyphs only, one more than the progress gives.\<close>

definition v5_segment_cmds :: "(int \<rightharpoonup> v5_unit list) \<Rightarrow> real \<Rightarrow> seg_info \<Rightarrow> mask_cmd list" where
  "v5_segment_cmds glyph_sections t seg =
     (case glyph_sections (section_idx seg) of
        None \<Rightarrow> []
      | Some glyphs_in_section \<Rightarrow>
          if glyphs_in_section = [] then []
          else if t < seg_start seg then []
          else if t \<ge> seg_end seg then concat (map v5_fill_unit glyphs_in_section)
          else (let seg_progress = (t - seg_start seg) / (seg_end seg - seg_start seg);
                    num_glyphs_to_reveal = py_int (real (length glyphs_in_section) * seg_progress) + 1
                in concat (map v5_fill_unit (take (nat num_glyphs_to_reveal) glyphs_in_section))))"

text \<open>The fallback branch: the linear reveal by cumulative stroke length.\<close>

definition v5_linear_cmds :: "v5_env \<Rightarrow> real \<Rightarrow> mask_cmd list" where
  "v5_linear_cmds env t =
     (let progress = (if v5_drawing_time env \<le> 0 then 1.0 else min 1.0 (t / v5_drawing_time env));
          target_len = v5_total_perimeter env * progress;
          cum = v5_cumulative_perimeters env;
          left = v5_cutoff cum target_len 0 (length cum);
          cache_point0 = (left div v5_cache_interval env) * v5_cache_interval env;
          cached = (case v5_cached_masks env cache_point0 of
                      Some cached_mask \<Rightarrow> (cached_mask, cache_point0)
                    | None \<Rightarrow> ([], 0));
          cache_point = snd cached
      in fst cached
         @ map (\<lambda>j. DrawContoursFilled (v5_all_contours env ! j)) [cache_point ..< left]
         @ (if left < length (v5_all_contours env)
            then (let cnt = v5_all_contours env ! left;
                      prev_len = (if left > 0 then cum ! (left - 1) else 0);
                      remaining = target_len - prev_len;
                      p_len = cum ! left - prev_len
                  in if p_len > 0 \<and> remaining > 0
                     then (let num_pts = length cnt;
                               pts_to_draw = py_int ((remaining / p_len) * real num_pts)
                           in if pts_to_draw > 0 then [Polylines (take (nat pts_to_draw) cnt) 12] else [])
                     else [])
            else []))"

definition v5_reveal_cmds :: "v5_env \<Rightarrow> real \<Rightarrow> mask_cmd list" where
  "v5_reveal_cmds env t =
     (if v5_segments env \<noteq> [] \<and> segment_times (v5_segments env) \<noteq> []
      then concat (map (v5_segment_cmds (v5_glyph_sections env) t) (segment_times (v5_segments env)))
      else v5_linear_cmds env t)"

definition v5_make_frame :: "rasterizer \<Rightarrow> v5_env \<Rightarrow> real \<Rightarrow> point \<Rightarrow> colour" where
  "v5_make_frame raster env t p =
     reverse_channels
       (if on_canvas p \<and> list_ex (\<lambda>cmd. raster cmd p) (v5_reveal_cmds env t)
        then v5_full_canvas_ref env p
        else blank_canvas (v5_is_dark_bg env) p)"

section \<open>Notions used to state the properties\<close>

text \<open>
  A bounding box by its edges (left, top, right, bottom), containment of boxes, and the
  minimal box around a group of glyphs: it contains the box of every member and lies within
  every box that does.
\<close>

type_synonym box = "int \<times> int \<times> int \<times> int"

definition box_of :: "glyph \<Rightarrow> box" where
  "box_of g = (glyph_x g, glyph_y g, glyph_x g + glyph_w g, glyph_y g + glyph_h g)"

definition box_within :: "box \<Rightarrow> box \<Rightarrow> bool" where
  "box_within inner outer =
     (case inner of (l, t, r, b) \<Rightarrow> case outer of (L, T, R, B) \<Rightarrow> L \<le> l \<and> T \<le> t \<and> r \<le> R \<and> b \<le> B)"

definition is_minimal_box :: "box \<Rightarrow> glyph list \<Rightarrow> bool" where
  "is_minimal_box B grp =
     (list_all (\<lambda>g. box_within (box_of g) B) grp \<and>
      (\<forall>B'. list_all (\<lambda>g. box_within (box_of g) B') grp \<longrightarrow> box_within B B'))"

text \<open>
  A unit \<open>u\<close> of the merged list stands for the group \<open>grp\<close> of input glyphs absorbed into it:
  the totals are the sums over the group, the contours are those of the members in order,
  and the box spans the members' boxes.
\<close>

definition absorbs :: "glyph \<Rightarrow> glyph list \<Rightarrow> bool" where
  "absorbs u grp =
     (grp \<noteq> [] \<and>
      area u = sum_list (map area grp) \<and>
      total_len u = sum_list (map total_len grp) \<and>
      contours u = concat (map contours grp) \<and>
      glyph_x u = Min (glyph_x ` set grp) \<and>
      glyph_y u = Min (glyph_y ` set grp) \<and>
      glyph_x u + glyph_w u = Max ((\<lambda>g. glyph_x g + glyph_w g) ` set grp) \<and>
      glyph_y u + glyph_h u = Max ((\<lambda>g. glyph_y g + glyph_h g) ` set grp))"

text \<open>\<^verbatim>\<open>d.get(k, [])\<close>: the list stored under a key, empty for a missing key.\<close>

definition section_list :: "('k \<rightharpoonup> 'g list) \<Rightarrow> 'k \<Rightarrow> 'g list" where
  "section_list d k = (case d k of None \<Rightarrow> [] | Some l \<Rightarrow> l)"

text \<open>
  Example glyphs: two letters 40 pixels tall on one line, 20 pixels wide, the second one
  5 pixels, or 200 pixels, to the right of the first. Each has one rectangular outline.
\<close>

definition letter_at :: "int \<Rightarrow> int \<Rightarrow> glyph" where
  "letter_at i x0 =
     \<lparr>glyph_id = i, glyph_x = x0, glyph_y = 100, glyph_w = 20, glyph_h = 40, area = 800,
      contours = [\<lparr>pts = [(x0, 100), (x0 + 19, 100), (x0 + 19, 139), (x0, 139)], len = 116\<rparr>],
      total_len = 116,
      center = (real_of_int x0 + 10, 120)\<rparr>"

text \<open>
  The units drawn over the whole clip: for every timed segment, in order, the section it
  reveals. Two narration segments of 2 and 3 seconds serve as an example.
\<close>

definition draw_sequence :: "(int \<rightharpoonup> glyph list) \<Rightarrow> segment list \<Rightarrow> glyph list" where
  "draw_sequence secs segs =
     concat (map (\<lambda>seg. section_list secs (section_idx seg)) (segment_times segs))"

definition two_segments :: "segment list" where
  "two_segments = [\<lparr>position = Some 0, duration = Some 2, bbox = None\<rparr>,
                   \<lparr>position = Some 1, duration = Some 3, bbox = None\<rparr>]"

text \<open>
  An ink map is a thresholding followed by a morphological opening with a 2 by 2
  rectangle when the expression has that form.
\<close>

fun is_threshold :: "cv_image \<Rightarrow> bool" where
  "is_threshold (ThresholdOtsu src ty) = True"
| "is_threshold (AdaptiveThresholdGaussian src ty block_size c) = True"
| "is_threshold other = False"

fun opened_threshold :: "cv_image \<Rightarrow> bool" where
  "opened_threshold (MorphOpenRect src ksize) = (is_threshold src \<and> ksize = (2, 2))"
| "opened_threshold other = False"

text \<open>
  The filled-contour commands among the commands of a frame, and all contours of a list of
  units in drawing order.
\<close>

fun is_fill :: "mask_cmd \<Rightarrow> bool" where
  "is_fill (DrawContoursFilled ps) = True"
| "is_fill (Polylines ps th) = False"

definition all_contours :: "glyph list \<Rightarrow> contour list" where
  "all_contours gs = concat (map contours gs)"

text \<open>
  A model of the two OpenCV drawing calls, after their documentation: a thick polyline sets
  the pixels within half the thickness of one of its segments (\<open>seg_dist2\<close> is the squared
  distance of a pixel from a segment), a filled contour sets the pixels on the closed
  polygon and those inside it (by the parity of edge crossings of a ray to the right).
  OpenCV's own rounding may differ from it by a pixel at the border of a stroke.
\<close>

definition seg_dist2 :: "point \<Rightarrow> point \<Rightarrow> point \<Rightarrow> real" where
  "seg_dist2 a b p =
     (let ax = real_of_int (fst a); ay = real_of_int (snd a);
          bx = real_of_int (fst b); by = real_of_int (snd b);
          px = real_of_int (fst p); py = real_of_int (snd p);
          dx = bx - ax; dy = by - ay;
          l2 = dx * dx + dy * dy
      in if l2 = 0 then (px - ax) * (px - ax) + (py - ay) * (py - ay)
         else (let u = max 0 (min 1 (((px - ax) * dx + (py - ay) * dy) / l2))
               in (px - (ax + u * dx)) * (px - (ax + u * dx))
                  + (py - (ay + u * dy)) * (py - (ay + u * dy))))"

fun on_polyline :: "point list \<Rightarrow> nat \<Rightarrow> point \<Rightarrow> bool" where
  "on_polyline (a # b # rest) th p =
     (4 * seg_dist2 a b p \<le> real th * real th \<or> on_polyline (b # rest) th p)"
| "on_polyline ps th p = False"

definition polygon_edges :: "point list \<Rightarrow> (point \<times> point) list" where
  "polygon_edges ps = (case ps of [] \<Rightarrow> [] | a # rest \<Rightarrow> zip ps (rest @ [a]))"

definition crosses :: "point \<Rightarrow> point \<times> point \<Rightarrow> bool" where
  "crosses p e =
     (case e of (a, b) \<Rightarrow>
        ((snd a > snd p) \<noteq> (snd b > snd p)) \<and>
        real_of_int (fst p)
          < real_of_int (fst b - fst a) * real_of_int (snd p - snd a) / real_of_int (snd b - snd a)
            + real_of_int (fst a))"

definition in_polygon :: "point list \<Rightarrow> point \<Rightarrow> bool" where
  "in_polygon ps p =
     (list_ex (\<lambda>e. seg_dist2 (fst e) (snd e) p = 0) (polygon_edges ps)
      \<or> odd (length (filter (crosses p) (polygon_edges ps))))"

fun cv_raster :: rasterizer where
  "cv_raster (DrawContoursFilled ps) p = in_polygon ps p"
| "cv_raster (Polylines ps th) p = on_polyline ps th p"

text \<open>
  An example clip: one glyph, a solid dark rectangle of 20 by 40 pixels on a white image of
  canvas size, revealed by a single segment of two seconds in style \<open>normal\<close>.
\<close>

definition example_ink :: "point \<Rightarrow> 8 word" where
  "example_ink p = (if 100 \<le> fst p \<and> fst p \<le> 119 \<and> 100 \<le> snd p \<and> snd p \<le> 139 then 255 else 0)"

definition example_original :: "point \<Rightarrow> colour" where
  "example_original p = (if example_ink p > 0 then (0, 0, 0) else (255, 255, 255))"

definition example_env :: render_env where
  "example_env =
     \<lparr>env_is_dark_bg = False,
      env_style = ''normal'',
      env_segments = [\<lparr>position = Some 0, duration = Some 2, bbox = None\<rparr>],
      env_glyph_sections = [0 \<mapsto> [letter_at 1 100]],
      env_full_canvas_ref = full_canvas_ref False 0 0 1920 1080 example_ink example_original\<rparr>"

text \<open>
  Notions for the reveal over time. All contours of the units of a clip; when the commands
  of a later frame continue those of an earlier one (a filled contour stays, a partial
  polyline is replaced by a polyline along at least as many points of the same contour, or
  by that contour filled); the part of the mask that comes from filled contours; the
  pixels painted by a partial polyline outside the filled region of its contour; and the
  property of a rasterizer that a polyline covers what the polyline along fewer of its
  points covers.
\<close>

definition env_contours :: "render_env \<Rightarrow> contour set" where
  "env_contours env =
     {c. \<exists>i gs g. env_glyph_sections env i = Some gs \<and> g \<in> set gs \<and> c \<in> set (contours g)}"

definition evolves :: "contour set \<Rightarrow> mask_cmd list \<Rightarrow> mask_cmd list \<Rightarrow> bool" where
  "evolves C earlier later =
     (\<forall>cmd\<in>set earlier.
        (is_fill cmd \<and> cmd \<in> set later) \<or>
        (\<exists>c\<in>C. \<exists>n th. cmd = Polylines (take n (pts c)) th \<and>
           (DrawContoursFilled (pts c) \<in> set later \<or>
            (\<exists>m\<ge>n. Polylines (take m (pts c)) th \<in> set later))))"

definition fill_mask :: "rasterizer \<Rightarrow> render_env \<Rightarrow> real \<Rightarrow> point \<Rightarrow> bool" where
  "fill_mask raster env t p =
     (on_canvas p \<and>
      (case reveal_cmds env t of
         None \<Rightarrow> True
       | Some cmds \<Rightarrow> list_ex (\<lambda>cmd. is_fill cmd \<and> raster cmd p) cmds))"

definition stroke_spill :: "rasterizer \<Rightarrow> render_env \<Rightarrow> real \<Rightarrow> point \<Rightarrow> bool" where
  "stroke_spill raster env t p =
     (case reveal_cmds env t of
        None \<Rightarrow> False
      | Some cmds \<Rightarrow>
          (\<exists>c\<in>env_contours env. \<exists>n th.
             Polylines (take n (pts c)) th \<in> set cmds \<and>
             raster (Polylines (take n (pts c)) th) p \<and>
             \<not> raster (DrawContoursFilled (pts c)) p))"

definition prefix_monotone :: "rasterizer \<Rightarrow> bool" where
  "prefix_monotone raster =
     (\<forall>ps n m th p. n \<le> m \<and> raster (Polylines (take n ps) th) p \<longrightarrow> raster (Polylines (take m ps) th) p)"

text \<open>
  The segment a glyph ends up in under the V6 bounding-box assignment, read off the two
  loops: the result of the container scan if there is one, otherwise the result of the
  nearest-centre scan over the valid boxes, or 0 when there is no valid box. Two segments
  with boxes, the first inside the second, two segments without boxes and glyph boxes
  serve as examples.
\<close>

definition valid_metas :: "seg_meta option list \<Rightarrow> seg_meta list" where
  "valid_metas metas = map the (filter (\<lambda>m. m \<noteq> None) metas)"

definition assigned_segment :: "seg_meta option list \<Rightarrow> 'a glyph_box_scheme \<Rightarrow> nat" where
  "assigned_segment metas g =
     (case container_scan (glyph_gx g) (glyph_gy g) metas None of
        Some (i, a) \<Rightarrow> i
      | None \<Rightarrow> (if valid_metas metas \<noteq> []
                 then nearest_scan (glyph_gx g) (glyph_gy g) (valid_metas metas) 0 None
                 else 0))"

definition fallback_idx :: "seg_meta option list \<Rightarrow> 'a glyph_box_scheme \<Rightarrow> nat" where
  "fallback_idx metas g =
     (if valid_metas metas \<noteq> []
      then nearest_scan (glyph_gx g) (glyph_gy g) (valid_metas metas) 0 None
      else 0)"

definition boxed_segments :: "v6_segment list" where
  "boxed_segments =
     [\<lparr>position = None, duration = Some 2,
       bbox = Some (PyList [PyNum 0, PyNum 0, PyNum 250, PyNum 250]), desc = Some (PyStr ''The small detail'')\<rparr>,
      \<lparr>position = None, duration = Some 3,
       bbox = Some (PyList [PyNum 0, PyNum 0, PyNum 500, PyNum 500]), desc = Some (PyStr ''The frame around it'')\<rparr>]"

text \<open>The boxes of these two segments in a frame of 1920 by 1080.\<close>

definition boxed_metas :: "seg_meta option list" where
  "boxed_metas =
     [Some \<lparr>meta_idx = 0, meta_rect = (0, 0, 480, 270), meta_area = 129600, meta_center = (240, 135)\<rparr>,
      Some \<lparr>meta_idx = 1, meta_rect = (0, 0, 960, 540), meta_area = 518400, meta_center = (480, 270)\<rparr>]"

definition unboxed_segments :: "v6_segment list" where
  "unboxed_segments =
     [\<lparr>position = None, duration = Some 2, bbox = None, desc = Some (PyStr ''First step'')\<rparr>,
      \<lparr>position = None, duration = Some 3, bbox = None, desc = None\<rparr>]"

text \<open>
  The segments the V6 caller builds for a script part without a visual description: the
  key \<^verbatim>\<open>'desc'\<close> is present and null.
\<close>

definition undescribed_segments :: "v6_segment list" where
  "undescribed_segments =
     [\<lparr>position = None, duration = Some 2,
       bbox = Some (PyList [PyNum 0, PyNum 0, PyNum 1000, PyNum 1000]), desc = Some PyNone\<rparr>]"

text \<open>
  A description can be sliced when the key is absent (the default \<^verbatim>\<open>'N/A'\<close> is used) or when its
  value is a string or a list.
\<close>

fun sliceable :: "py_value \<Rightarrow> bool" where
  "sliceable (PyStr s) = True"
| "sliceable (PyList vs) = True"
| "sliceable PyNone = False"
| "sliceable (PyNum r) = False"

definition desc_sliceable :: "v6_segment \<Rightarrow> bool" where
  "desc_sliceable seg = (case desc seg of None \<Rightarrow> True | Some d \<Rightarrow> sliceable d)"

text \<open>A segment whose box, as a model may answer it, has three coordinates only.\<close>

definition short_box_segments :: "v6_segment list" where
  "short_box_segments =
     [\<lparr>position = None, duration = Some 2,
       bbox = Some (PyList [PyNum 0, PyNum 0, PyNum 500]), desc = Some (PyStr ''Cut short'')\<rparr>]"

definition box_at :: "int \<Rightarrow> int \<Rightarrow> int \<Rightarrow> glyph_box" where
  "box_at i x0 y0 = \<lparr>glyph_id = i, glyph_x = x0, glyph_y = y0, glyph_w = 20, glyph_h = 40, area = 800\<rparr>"

text \<open>
  Grey images of full size for the examples: one of a single grey value, and the grey image
  of the example clip, white with the dark rectangle of the example glyph.
\<close>

definition uniform_gray :: "nat \<Rightarrow> nat \<Rightarrow> 8 word \<Rightarrow> 8 word list list" where
  "uniform_gray rows cols v = replicate rows (replicate cols v)"

definition example_gray :: "8 word list list" where
  "example_gray =
     replicate 100 (replicate 1920 255)
     @ replicate 40 (replicate 100 255 @ replicate 20 0 @ replicate 1800 255)
     @ replicate 940 (replicate 1920 255)"

section \<open>Properties of the word-merge\<close>

lemma absorbs_single: "absorbs g [g]"
  by (simp add: absorbs_def)

lemma Min_image_snoc:
  fixes f :: "'a \<Rightarrow> int"
  assumes "xs \<noteq> []"
  shows "Min (f ` set (xs @ [y])) = min (Min (f ` set xs)) (f y)"
proof -
  have "f ` set (xs @ [y]) = insert (f y) (f ` set xs)" by auto
  moreover have "finite (f ` set xs)" "f ` set xs \<noteq> {}" using assms by auto
  ultimately show ?thesis by (simp add: min.commute)
qed

lemma Max_image_snoc:
  fixes f :: "'a \<Rightarrow> int"
  assumes "xs \<noteq> []"
  shows "Max (f ` set (xs @ [y])) = max (Max (f ` set xs)) (f y)"
proof -
  have "f ` set (xs @ [y]) = insert (f y) (f ` set xs)" by auto
  moreover have "finite (f ` set xs)" "f ` set xs \<noteq> {}" using assms by auto
  ultimately show ?thesis by (simp add: max.commute)
qed

lemma absorbs_absorb:
  assumes "absorbs cur grp"
  shows "absorbs (absorb cur nxt) (grp @ [nxt])"
proof -
  from assms have ne: "grp \<noteq> []"
    and a: "area cur = sum_list (map area grp)"
    and l: "total_len cur = sum_list (map total_len grp)"
    and c: "contours cur = concat (map contours grp)"
    and x: "Min (glyph_x ` set grp) = glyph_x cur"
    and y: "Min (glyph_y ` set grp) = glyph_y cur"
    and r: "Max ((\<lambda>g. glyph_x g + glyph_w g) ` set grp) = glyph_x cur + glyph_w cur"
    and b: "Max ((\<lambda>g. glyph_y g + glyph_h g) ` set grp) = glyph_y cur + glyph_h cur"
    by (simp_all add: absorbs_def)
  show ?thesis
    unfolding absorbs_def Min_image_snoc[OF ne] Max_image_snoc[OF ne] x y r b
    by (simp add: absorb_def Let_def a l c)
qed

lemma merge_scan_groups:
  assumes "absorbs cur cgrp" and "list_all2 absorbs merged mgroups"
  shows "\<exists>groups. list_all2 absorbs (merge_scan k cur rest merged) groups \<and>
                  concat groups = concat mgroups @ cgrp @ rest"
  using assms
proof (induction rest arbitrary: cur cgrp merged mgroups)
  case Nil
  then have "list_all2 absorbs (merged @ [cur]) (mgroups @ [cgrp])"
    by (simp add: list_all2_appendI)
  then show ?case by (intro exI[of _ "mgroups @ [cgrp]"]) simp
next
  case (Cons nxt rest)
  show ?case
  proof (cases "vertical_match k cur nxt \<and> horizontal_match k cur nxt")
    case True
    from Cons.IH[OF absorbs_absorb[OF Cons.prems(1)] Cons.prems(2), of nxt]
    show ?thesis using True by simp
  next
    case False
    have "list_all2 absorbs (merged @ [cur]) (mgroups @ [cgrp])"
      using Cons.prems by (simp add: list_all2_appendI)
    from Cons.IH[OF absorbs_single this, of nxt]
    show ?thesis using False by auto
  qed
qed

lemma list_all2_absorbs_singletons: "list_all2 absorbs gs (map (\<lambda>g. [g]) gs)"
  by (induction gs) (simp_all add: absorbs_single)

lemma concat_singletons: "concat (map (\<lambda>g. [g]) gs) = gs"
  by (induction gs) simp_all

lemma safely_merge_words_groups:
  "\<exists>groups. list_all2 absorbs (safely_merge_words k glyphs) groups \<and>
            mset (concat groups) = mset glyphs"
proof -
  let ?P = "\<lambda>g. area g < area_limit k"
  let ?cands = "filter ?P glyphs"
  let ?bypass = "filter (\<lambda>g. \<not> ?P g) glyphs"
  have split: "mset ?cands + mset ?bypass = mset glyphs"
    by (induction glyphs) simp_all
  show ?thesis
  proof (cases "?cands = []")
    case True
    then have out: "safely_merge_words k glyphs = ?bypass"
      by (simp add: safely_merge_words_def)
    have "mset (concat (map (\<lambda>g. [g]) ?bypass)) = mset glyphs"
      using split True by (simp add: concat_singletons)
    with list_all2_absorbs_singletons[of ?bypass] out show ?thesis
      by metis
  next
    case False
    let ?sorted = "sort_key (\<lambda>g. (glyph_y g, glyph_x g)) ?cands"
    have "?sorted \<noteq> []" using False by (metis length_sort length_0_conv)
    then obtain cur rest where sc: "?sorted = cur # rest" by (cases ?sorted) auto
    have ne: "glyphs \<noteq> []" using False by auto
    have out: "safely_merge_words k glyphs = merge_scan k cur rest [] @ ?bypass"
      using False ne sc by (simp add: safely_merge_words_def)
    have "\<exists>groups. list_all2 absorbs (merge_scan k cur rest []) groups \<and>
                  concat groups = concat [] @ [cur] @ rest"
      by (rule merge_scan_groups[OF absorbs_single]) simp
    then obtain groups where g: "list_all2 absorbs (merge_scan k cur rest []) groups"
      "concat groups = cur # rest" by auto
    have all: "list_all2 absorbs (merge_scan k cur rest [] @ ?bypass) (groups @ map (\<lambda>g. [g]) ?bypass)"
      using g(1) list_all2_absorbs_singletons by (rule list_all2_appendI)
    have "mset (concat (groups @ map (\<lambda>g. [g]) ?bypass)) = mset ?sorted + mset ?bypass"
      using g(2) sc by (simp add: concat_singletons)
    also have "\<dots> = mset glyphs" using split by simp
    finally show ?thesis using all out by metis
  qed
qed

lemma absorbs_area_sum:
  "list_all2 absorbs us groups \<Longrightarrow> sum_list (map area us) = sum_list (map area (concat groups))"
  by (induction rule: list_all2_induct) (simp_all add: absorbs_def)

lemma absorbs_len_sum:
  "list_all2 absorbs us groups \<Longrightarrow> sum_list (map total_len us) = sum_list (map total_len (concat groups))"
  by (induction rule: list_all2_induct) (simp_all add: absorbs_def)

lemma absorbs_contours:
  "list_all2 absorbs us groups \<Longrightarrow> concat (map contours us) = concat (map contours (concat groups))"
  by (induction rule: list_all2_induct) (simp_all add: absorbs_def)

lemma sum_list_mset_cong:
  fixes f :: "'a \<Rightarrow> 'b::comm_monoid_add"
  shows "mset xs = mset ys \<Longrightarrow> sum_list (map f xs) = sum_list (map f ys)"
  by (metis mset_map sum_mset_sum_list)

lemma concat_mset_cong:
  "mset xs = mset ys \<Longrightarrow> mset (concat (map f xs)) = mset (concat (map f ys))"
  by (metis mset_concat mset_map sum_mset_sum_list)

lemma absorbs_box:
  assumes "absorbs u grp"
  shows "list_all (\<lambda>g. box_within (box_of g) (box_of u)) grp"
    and "list_all (\<lambda>g. box_within (box_of g) B) grp \<Longrightarrow> box_within (box_of u) B"
proof -
  from assms have ne: "grp \<noteq> []" by (simp add: absorbs_def)
  show "list_all (\<lambda>g. box_within (box_of g) (box_of u)) grp"
    using assms by (auto simp: absorbs_def list_all_iff box_within_def box_of_def)
  assume a: "list_all (\<lambda>g. box_within (box_of g) B) grp"
  obtain L T R Bt where B: "B = (L, T, R, Bt)" by (cases B) auto
  have fin: "\<And>f::glyph \<Rightarrow> int. finite (f ` set grp) \<and> f ` set grp \<noteq> {}" using ne by auto
  show "box_within (box_of u) B"
    using assms a fin unfolding B
    by (auto simp: absorbs_def list_all_iff box_within_def box_of_def)
qed

lemma absorbs_nonempty: "absorbs u grp \<Longrightarrow> grp \<noteq> []"
  by (simp add: absorbs_def)

lemma absorbs_minimal_box: "absorbs u grp \<Longrightarrow> is_minimal_box (box_of u) grp"
  unfolding is_minimal_box_def using absorbs_box by blast

text \<open>
  Two candidates already in scan order: the outcome of the whole operation is decided by
  the two conditions.
\<close>

lemma merge_two:
  assumes "area a < area_limit k" "area b < area_limit k"
    and "(glyph_y a, glyph_x a) \<le> (glyph_y b, glyph_x b)"
  shows "safely_merge_words k [a, b] =
     (if vertical_match k a b \<and> horizontal_match k a b then [absorb a b] else [a, b])"
  using assms by (simp add: safely_merge_words_def)

text \<open>
  Claim C5. In the scan of the word-merge the accumulator \<open>cur\<close> absorbs the next glyph
  \<open>nxt\<close> exactly when the centres differ vertically by less than the average height times
  the vertical factor, and the horizontal gap between the boxes lies strictly between minus
  the average height times the lower gap factor and the average height times the upper gap
  factor; otherwise the accumulator is emitted and \<open>nxt\<close> becomes the accumulator. For two
  glyphs below the bypass threshold, in (y, x) order, both 40 pixels tall and with equal
  centre height: a gap of 5 pixels merges them under the strict constants of V7.3 (upper
  bound 16 pixels) and under the loose constants of V8 (upper bound 48 pixels); a gap of 200
  pixels merges them under neither.
\<close>

theorem merge_exactly_when_aligned_and_adjacent:
  "merge_scan k cur (nxt # rest) merged =
     (if \<bar>snd (center cur) - snd (center nxt)\<bar>
           < (real_of_int (glyph_h cur) + real_of_int (glyph_h nxt)) / 2 * v_factor k
         \<and> - ((real_of_int (glyph_h cur) + real_of_int (glyph_h nxt)) / 2 * gap_min_factor k)
             < real_of_int (glyph_x nxt - (glyph_x cur + glyph_w cur))
         \<and> real_of_int (glyph_x nxt - (glyph_x cur + glyph_w cur))
             < (real_of_int (glyph_h cur) + real_of_int (glyph_h nxt)) / 2 * gap_max_factor k
      then merge_scan k (absorb cur nxt) rest merged
      else merge_scan k nxt rest (merged @ [cur]))
   \<and> (real_of_int (glyph_h cur) + real_of_int (glyph_h cur)) / 2 * gap_max_factor v7_3_consts
       = real_of_int (glyph_h cur) * 0.4
   \<and> (real_of_int (glyph_h cur) + real_of_int (glyph_h cur)) / 2 * gap_max_factor v8_consts
       = real_of_int (glyph_h cur) * 1.2
   \<and> (glyph_h a = 40 \<and> glyph_h b = 40 \<and> snd (center a) = snd (center b) \<and>
       area a < 8000 \<and> area b < 8000 \<and> (glyph_y a, glyph_x a) \<le> (glyph_y b, glyph_x b) \<longrightarrow>
         (gap a b = 5 \<longrightarrow>
            safely_merge_words v7_3_consts [a, b] = [absorb a b] \<and>
            safely_merge_words v8_consts [a, b] = [absorb a b]) \<and>
         (gap a b = 200 \<longrightarrow>
            safely_merge_words v7_3_consts [a, b] = [a, b] \<and>
            safely_merge_words v8_consts [a, b] = [a, b]))"
proof (intro conjI impI)
  show "merge_scan k cur (nxt # rest) merged =
     (if \<bar>snd (center cur) - snd (center nxt)\<bar>
           < (real_of_int (glyph_h cur) + real_of_int (glyph_h nxt)) / 2 * v_factor k
         \<and> - ((real_of_int (glyph_h cur) + real_of_int (glyph_h nxt)) / 2 * gap_min_factor k)
             < real_of_int (glyph_x nxt - (glyph_x cur + glyph_w cur))
         \<and> real_of_int (glyph_x nxt - (glyph_x cur + glyph_w cur))
             < (real_of_int (glyph_h cur) + real_of_int (glyph_h nxt)) / 2 * gap_max_factor k
      then merge_scan k (absorb cur nxt) rest merged
      else merge_scan k nxt rest (merged @ [cur]))"
    by (auto simp: vertical_match_def horizontal_match_def avg_h_def gap_def)
next
  show "(real_of_int (glyph_h cur) + real_of_int (glyph_h cur)) / 2 * gap_max_factor v7_3_consts
       = real_of_int (glyph_h cur) * 0.4"
    by (simp add: v7_3_consts_def)
next
  show "(real_of_int (glyph_h cur) + real_of_int (glyph_h cur)) / 2 * gap_max_factor v8_consts
       = real_of_int (glyph_h cur) * 1.2"
    by (simp add: v8_consts_def)
next
  assume h: "glyph_h a = 40 \<and> glyph_h b = 40 \<and> snd (center a) = snd (center b) \<and>
       area a < 8000 \<and> area b < 8000 \<and> (glyph_y a, glyph_x a) \<le> (glyph_y b, glyph_x b)"
  {
    assume "gap a b = 5"
    with h show "safely_merge_words v7_3_consts [a, b] = [absorb a b]"
      by (simp add: merge_two vertical_match_def horizontal_match_def avg_h_def v7_3_consts_def)
    from h \<open>gap a b = 5\<close> show "safely_merge_words v8_consts [a, b] = [absorb a b]"
      by (simp add: merge_two vertical_match_def horizontal_match_def avg_h_def v8_consts_def)
  }
  {
    assume "gap a b = 200"
    with h show "safely_merge_words v7_3_consts [a, b] = [a, b]"
      by (simp add: merge_two vertical_match_def horizontal_match_def avg_h_def v7_3_consts_def)
    from h \<open>gap a b = 200\<close> show "safely_merge_words v8_consts [a, b] = [a, b]"
      by (simp add: merge_two vertical_match_def horizontal_match_def avg_h_def v8_consts_def)
  }
qed

theorem merge_exactly_when_aligned_and_adjacent_witness:
  "safely_merge_words v7_3_consts [letter_at 1 100, letter_at 2 125]
     = [absorb (letter_at 1 100) (letter_at 2 125)]
   \<and> safely_merge_words v8_consts [letter_at 1 100, letter_at 2 125]
     = [absorb (letter_at 1 100) (letter_at 2 125)]
   \<and> safely_merge_words v7_3_consts [letter_at 1 100, letter_at 2 320]
     = [letter_at 1 100, letter_at 2 320]
   \<and> safely_merge_words v8_consts [letter_at 1 100, letter_at 2 320]
     = [letter_at 1 100, letter_at 2 320]"
  using merge_exactly_when_aligned_and_adjacent [where a = "letter_at 1 100" and b = "letter_at 2 125"]
        merge_exactly_when_aligned_and_adjacent [where a = "letter_at 1 100" and b = "letter_at 2 320"]
  by (simp add: letter_at_def gap_def)


text \<open>
  Claim C10. The word-merge conserves ink: over the returned list the sum of the areas, the
  sum of the total contour lengths and the multiset of contours are those of the input list;
  and the input glyphs split into non-empty groups, one for each returned unit, such that
  the unit's bounding box is the minimal axis-aligned box containing the boxes of the
  glyphs of its group. (Lengths are added as ideal reals.)
\<close>

theorem merge_conserves_ink:
  "sum_list (map area (safely_merge_words k glyphs)) = sum_list (map area glyphs)
   \<and> sum_list (map total_len (safely_merge_words k glyphs)) = sum_list (map total_len glyphs)
   \<and> mset (concat (map contours (safely_merge_words k glyphs))) = mset (concat (map contours glyphs))
   \<and> (\<exists>groups. mset (concat groups) = mset glyphs \<and>
         list_all2 (\<lambda>u grp. grp \<noteq> [] \<and> is_minimal_box (box_of u) grp)
                   (safely_merge_words k glyphs) groups)"
proof -
  obtain groups where g: "list_all2 absorbs (safely_merge_words k glyphs) groups"
    and m: "mset (concat groups) = mset glyphs"
    using safely_merge_words_groups by blast
  have "sum_list (map area (safely_merge_words k glyphs)) = sum_list (map area (concat groups))"
    using g by (rule absorbs_area_sum)
  then have a: "sum_list (map area (safely_merge_words k glyphs)) = sum_list (map area glyphs)"
    using sum_list_mset_cong[OF m, of area] by simp
  have "sum_list (map total_len (safely_merge_words k glyphs)) = sum_list (map total_len (concat groups))"
    using g by (rule absorbs_len_sum)
  then have l: "sum_list (map total_len (safely_merge_words k glyphs)) = sum_list (map total_len glyphs)"
    using sum_list_mset_cong[OF m, of total_len] by simp
  have "concat (map contours (safely_merge_words k glyphs)) = concat (map contours (concat groups))"
    using g by (rule absorbs_contours)
  then have c: "mset (concat (map contours (safely_merge_words k glyphs))) = mset (concat (map contours glyphs))"
    using concat_mset_cong[OF m, of contours] by simp
  have "list_all2 (\<lambda>u grp. grp \<noteq> [] \<and> is_minimal_box (box_of u) grp) (safely_merge_words k glyphs) groups"
    using g by (rule list_all2_mono) (simp add: absorbs_nonempty absorbs_minimal_box)
  with a l c m show ?thesis by blast
qed

theorem merge_conserves_ink_witness:
  "sum_list (map area (safely_merge_words v8_consts [letter_at 1 100, letter_at 2 125])) = 1600
   \<and> sum_list (map total_len (safely_merge_words v8_consts [letter_at 1 100, letter_at 2 125])) = 232
   \<and> size (mset (concat (map contours (safely_merge_words v8_consts [letter_at 1 100, letter_at 2 125])))) = 2"
  using merge_conserves_ink [of v8_consts "[letter_at 1 100, letter_at 2 125]"]
  by (simp add: letter_at_def)

section \<open>Properties of the path sequencers\<close>

lemma mset_filter_split: "mset (filter P xs) + mset (filter (\<lambda>x. \<not> P x) xs) = mset xs"
  by (induction xs) simp_all

lemma find_line_range:
  "find_line matches g i lines = Some j \<Longrightarrow> i \<le> j \<and> j < i + length lines"
  by (induction lines arbitrary: i) (fastforce split: if_splits)+

lemma mset_concat_update:
  "j < length lines \<Longrightarrow> mset (concat (lines[j := lines ! j @ [g]])) = mset (concat lines) + {#g#}"
proof (induction lines arbitrary: j)
  case Nil
  then show ?case by simp
next
  case (Cons l ls)
  then show ?case by (cases j) simp_all
qed

lemma mset_place_glyph:
  "mset (concat (place_glyph matches lines g)) = mset (concat lines) + {#g#}"
proof (cases "find_line matches g 0 lines")
  case None
  then show ?thesis by (simp add: place_glyph_def)
next
  case (Some j)
  then have "j < length lines" using find_line_range by fastforce
  then show ?thesis using Some by (simp add: place_glyph_def mset_concat_update)
qed

lemma mset_foldl_place:
  "mset (concat (foldl (place_glyph matches) lines gs)) = mset (concat lines) + mset gs"
  by (induction gs arbitrary: lines) (simp_all add: mset_place_glyph)

lemma mset_cluster_lines: "mset (concat (cluster_lines matches gs)) = mset gs"
  by (simp add: cluster_lines_def mset_foldl_place)

lemma place_glyph_nonempty:
  assumes "[] \<notin> set lines"
  shows "[] \<notin> set (place_glyph matches lines g)"
proof (cases "find_line matches g 0 lines")
  case None
  then show ?thesis using assms by (simp add: place_glyph_def)
next
  case (Some j)
  have "set (lines[j := lines ! j @ [g]]) \<subseteq> insert (lines ! j @ [g]) (set lines)"
    by (rule set_update_subset_insert)
  then show ?thesis using assms Some by (auto simp: place_glyph_def)
qed

lemma foldl_place_nonempty:
  "[] \<notin> set lines \<Longrightarrow> [] \<notin> set (foldl (place_glyph matches) lines gs)"
  by (induction gs arbitrary: lines) (simp_all add: place_glyph_nonempty)

lemma cluster_lines_nonempty: "[] \<notin> set (cluster_lines matches gs)"
  by (simp add: cluster_lines_def foldl_place_nonempty)

lemma mset_order_lines: "mset (order_lines lines) = mset (concat lines)"
proof -
  let ?k = "line_avg (\<lambda>item. real_of_int (glyph_y item))"
  have "mset (order_lines lines) = sum_list (map mset (sort_key ?k lines))"
    by (simp add: order_lines_def mset_concat comp_def)
  also have "\<dots> = sum_list (map mset lines)"
    by (rule sum_list_mset_cong) simp
  finally show ?thesis by (simp add: mset_concat)
qed

lemma mset_sort_v8: "mset (sort_contours_by_path_v8 glyphs) = mset glyphs"
  by (simp add: sort_contours_by_path_v8_def Let_def mset_order_lines mset_cluster_lines)

lemma mset_sort_v8_1: "mset (sort_contours_by_path_v8_1 glyphs) = mset glyphs"
  by (simp add: sort_contours_by_path_v8_1_def Let_def mset_order_lines mset_cluster_lines mset_filter_split)

lemma argmax_area_range:
  "argmax_area gs i b a = b \<or> (i \<le> argmax_area gs i b a \<and> argmax_area gs i b a < i + length gs)"
proof (induction gs arbitrary: i b a)
  case Nil
  then show ?case by simp
next
  case (Cons g gs)
  show ?case
    using Cons.IH[of "Suc i" i "area g"] Cons.IH[of "Suc i" b a]
    by (auto split: if_splits)
qed

lemma start_idx_range: "glyphs \<noteq> [] \<Longrightarrow> start_idx glyphs < length glyphs"
proof (cases glyphs)
  case Nil
  assume "glyphs \<noteq> []" with Nil show ?thesis by simp
next
  case (Cons g gs)
  show ?thesis using argmax_area_range[of gs 1 0 "area g"] Cons by (auto simp: start_idx_def)
qed

lemma closest_scan_range:
  "closest_scan c xs i b md = b \<or>
   (i \<le> closest_scan c xs i b md \<and> closest_scan c xs i b md < i + int (length xs))"
proof (induction xs arbitrary: i b md)
  case Nil
  then show ?case by simp
next
  case (Cons x xs)
  show ?case
    using Cons.IH[of "i + 1" i "Some (sq_dist c (center x))"] Cons.IH[of "i + 1" b md]
    by (auto simp: Let_def split: if_splits)
qed

lemma closest_scan_found:
  assumes "xs \<noteq> []"
  shows "0 \<le> closest_scan c xs 0 (-1) None \<and> closest_scan c xs 0 (-1) None < int (length xs)"
proof -
  obtain x rest where xs: "xs = x # rest" using assms by (cases xs) auto
  show ?thesis
    using closest_scan_range[of c rest 1 0 "Some (sq_dist c (center x))"]
    by (auto simp: xs Let_def)
qed

lemma py_pop_valid:
  assumes "0 \<le> i" "i < int (length xs)"
  shows "\<exists>a ys. py_pop xs i = Inr (a, ys) \<and> mset ys + {#a#} = mset xs"
proof -
  let ?j = "nat i"
  have j: "?j < length xs" using assms by simp
  have "mset (take ?j xs @ drop (Suc ?j) xs) + {#xs ! ?j#} = mset (take ?j xs @ xs ! ?j # drop (Suc ?j) xs)"
    by simp
  also have "\<dots> = mset xs" using id_take_nth_drop[OF j] by simp
  finally have "mset (take ?j xs @ drop (Suc ?j) xs) + {#xs ! ?j#} = mset xs" .
  moreover have "py_pop xs i = Inr (xs ! ?j, take ?j xs @ drop (Suc ?j) xs)"
    using assms by (simp add: py_pop_def Let_def)
  ultimately show ?thesis by blast
qed

lemma nn_loop_perm:
  "\<exists>ord. nn_loop current unvisited ordered = Inr ord \<and> mset ord = mset ordered + mset unvisited"
proof (induction current unvisited ordered rule: nn_loop.induct)
  case (1 current unvisited ordered)
  show ?case
  proof (cases "unvisited = []")
    case True
    then show ?thesis by simp
  next
    case False
    let ?i = "closest_scan (center current) unvisited 0 (-1) None"
    from closest_scan_found[OF False, of "center current"]
    have "0 \<le> ?i" "?i < int (length unvisited)" by auto
    from py_pop_valid[OF this] obtain a ys where
      pop: "py_pop unvisited ?i = Inr (a, ys)" and ms: "mset ys + {#a#} = mset unvisited" by auto
    from "1.IH"[OF False pop refl]
    obtain ord where "nn_loop a ys (ordered @ [a]) = Inr ord" "mset ord = mset (ordered @ [a]) + mset ys"
      by auto
    then show ?thesis using False pop ms by (auto simp: ac_simps)
  qed
qed

lemma sort_v7_3_perm:
  "\<exists>ord. sort_contours_by_path_v7_3 glyphs = Inr ord \<and> mset ord = mset glyphs"
proof (cases "glyphs = []")
  case True
  then show ?thesis by (simp add: sort_contours_by_path_v7_3_def)
next
  case False
  have "0 \<le> int (start_idx glyphs)" "int (start_idx glyphs) < int (length glyphs)"
    using start_idx_range[OF False] by auto
  from py_pop_valid[OF this] obtain a ys where
    pop: "py_pop glyphs (int (start_idx glyphs)) = Inr (a, ys)" and ms: "mset ys + {#a#} = mset glyphs"
    by auto
  from nn_loop_perm[of a ys "[a]"] obtain ord where
    "nn_loop a ys [a] = Inr ord" "mset ord = mset [a] + mset ys" by auto
  then show ?thesis using False pop ms by (auto simp: sort_contours_by_path_v7_3_def ac_simps)
qed

section \<open>Properties of the section assignment\<close>

lemma sum_list_single_hit:
  fixes a :: "'a"
  assumes "distinct ks" "k \<in> set ks"
  shows "(\<Sum>i\<leftarrow>ks. if k = i then {#a#} else {#}) = {#a#}"
  using assms
proof (induction ks)
  case Nil
  then show ?case by simp
next
  case (Cons j ks)
  have none: "k \<notin> set ks \<Longrightarrow> (\<Sum>i\<leftarrow>ks. if k = i then {#a#} else {#}) = {#}"
    by (induction ks) auto
  show ?case
  proof (cases "k = j")
    case True
    then have "k \<notin> set ks" using Cons.prems by simp
    then show ?thesis using True none by simp
  next
    case False
    then show ?thesis using Cons by simp
  qed
qed

lemma mset_partition_by_key:
  assumes "distinct ks" "\<forall>g\<in>set gs. f g \<in> set ks"
  shows "mset (concat (map (\<lambda>i. filter (\<lambda>g. f g = i) gs) ks)) = mset gs"
  using assms(2)
proof (induction gs)
  case Nil
  then show ?case by (simp add: mset_concat comp_def)
next
  case (Cons a gs)
  have "mset (concat (map (\<lambda>i. filter (\<lambda>g. f g = i) (a # gs)) ks))
        = (\<Sum>i\<leftarrow>ks. (if f a = i then {#a#} else {#}) + mset (filter (\<lambda>g. f g = i) gs))"
    by (simp add: mset_concat comp_def) (rule arg_cong[of _ _ sum_list], rule map_cong, auto)
  also have "\<dots> = (\<Sum>i\<leftarrow>ks. if f a = i then {#a#} else {#}) + (\<Sum>i\<leftarrow>ks. mset (filter (\<lambda>g. f g = i) gs))"
    by (simp add: sum_list_addf)
  also have "\<dots> = {#a#} + mset gs"
    using Cons sum_list_single_hit[OF assms(1), of "f a" a]
    by (simp add: mset_concat comp_def)
  finally show ?case by simp
qed

lemma assign_sections_ok:
  assumes "section_width new_w segs \<noteq> 0"
  shows "\<exists>secs. assign_sections new_w segs m gs = Inr secs \<and>
           (\<forall>i. section_list secs i
                = section_list m i @ filter (\<lambda>g. glyph_section_idx new_w segs g = Inr i) gs) \<and>
           dom secs = dom m \<union> {i. \<exists>g\<in>set gs. glyph_section_idx new_w segs g = Inr i}"
proof (induction gs arbitrary: m)
  case Nil
  then show ?case by simp
next
  case (Cons g gs)
  obtain k where k: "glyph_section_idx new_w segs g = Inr k"
    using assms by (simp add: glyph_section_idx_def Let_def)
  let ?m = "m(k \<mapsto> (case m k of None \<Rightarrow> [] | Some l \<Rightarrow> l) @ [g])"
  from Cons[of ?m] obtain secs where
    s: "assign_sections new_w segs ?m gs = Inr secs"
    and l: "\<forall>i. section_list secs i
                = section_list ?m i @ filter (\<lambda>g. glyph_section_idx new_w segs g = Inr i) gs"
    and d: "dom secs = dom ?m \<union> {i. \<exists>g\<in>set gs. glyph_section_idx new_w segs g = Inr i}"
    by blast
  have "assign_sections new_w segs m (g # gs) = Inr secs" using s k by simp
  moreover have "\<forall>i. section_list secs i
                = section_list m i @ filter (\<lambda>g. glyph_section_idx new_w segs g = Inr i) (g # gs)"
    using l k by (auto simp: section_list_def)
  moreover have "dom secs = dom m \<union> {i. \<exists>g\<in>set (g # gs). glyph_section_idx new_w segs g = Inr i}"
    using d k by auto
  ultimately show ?case by blast
qed

lemma py_int_nonneg: "0 \<le> r \<Longrightarrow> py_int r = \<lfloor>r\<rfloor>"
  by (simp add: py_int_def)

lemma glyph_section_idx_valid:
  assumes "segs \<noteq> []" "0 < new_w" "0 \<le> glyph_x g" "0 \<le> glyph_w g"
  shows "glyph_section_idx new_w segs g
           = Inr (min \<lfloor>(real_of_int (glyph_x g) + real_of_int (glyph_w g) / 2)
                         / (real_of_int new_w / real (length segs))\<rfloor>
                      (int (length segs) - 1))"
    and "0 \<le> min \<lfloor>(real_of_int (glyph_x g) + real_of_int (glyph_w g) / 2)
                         / (real_of_int new_w / real (length segs))\<rfloor>
                      (int (length segs) - 1)"
proof -
  let ?cx = "real_of_int (glyph_x g) + real_of_int (glyph_w g) / 2"
  have n: "0 < real (length segs)" using assms(1) by simp
  have sw: "section_width new_w segs = real_of_int new_w / real (length segs)"
    using assms(1) by (simp add: section_width_def num_sections_def)
  have swpos: "0 < real_of_int new_w / real (length segs)" using n assms(2) by simp
  have cx: "0 \<le> ?cx" using assms(3,4) by simp
  then have q: "0 \<le> ?cx / (real_of_int new_w / real (length segs))"
    using swpos by (intro divide_nonneg_pos) auto
  show "glyph_section_idx new_w segs g = Inr (min \<lfloor>?cx / (real_of_int new_w / real (length segs))\<rfloor> (int (length segs) - 1))"
    using swpos q assms(1,2) by (simp add: glyph_section_idx_def sw py_int_nonneg num_sections_def Let_def)
  have "0 \<le> \<lfloor>?cx / (real_of_int new_w / real (length segs))\<rfloor>" using q by simp
  moreover have "0 \<le> int (length segs) - 1" using assms(1) by (cases segs) auto
  ultimately show "0 \<le> min \<lfloor>?cx / (real_of_int new_w / real (length segs))\<rfloor> (int (length segs) - 1)"
    by simp
qed

lemma glyph_section_idx_clamped:
  assumes "segs \<noteq> []" "0 < new_w" "0 \<le> glyph_x g" "0 \<le> glyph_w g"
    and "real_of_int new_w \<le> real_of_int (glyph_x g) + real_of_int (glyph_w g) / 2"
  shows "glyph_section_idx new_w segs g = Inr (int (length segs) - 1)"
proof -
  let ?cx = "real_of_int (glyph_x g) + real_of_int (glyph_w g) / 2"
  let ?n = "real (length segs)"
  have n: "0 < ?n" using assms(1) by simp
  have "?n = real_of_int new_w / (real_of_int new_w / ?n)" using assms(2) n by simp
  also have "\<dots> \<le> ?cx / (real_of_int new_w / ?n)"
    using assms(2,5) n by (intro divide_right_mono) auto
  finally have "?n \<le> ?cx / (real_of_int new_w / ?n)" .
  then have "int (length segs) \<le> \<lfloor>?cx / (real_of_int new_w / ?n)\<rfloor>"
    by (simp add: le_floor_iff)
  then show ?thesis using glyph_section_idx_valid(1)[OF assms(1-4)] by simp
qed


lemma timing_loop_indices:
  "map section_idx (timing_loop k t ss) = map int [k..<k + length ss]"
proof (induction ss arbitrary: k t)
  case Nil
  then show ?case by simp
next
  case (Cons s ss)
  have "[k..<k + length (s # ss)] = k # [Suc k..<Suc k + length ss]"
    by (subst upt_rec) simp
  then show ?case using Cons[of "Suc k"] by (simp add: Let_def del: upt_Suc)
qed

lemma segment_times_indices:
  "segs \<noteq> [] \<Longrightarrow> map section_idx (segment_times segs) = map int [0..<length segs]"
  by (simp add: segment_times_def timing_loop_indices)

lemma mset_concat_cong: "mset xss = mset yss \<Longrightarrow> mset (concat xss) = mset (concat yss)"
  using concat_mset_cong[of xss yss id] by simp

lemma sort_merge_groups:
  "\<exists>groups. list_all2 absorbs (sort_contours_by_path_v8 (safely_merge_words k gs)) groups \<and>
            mset (concat groups) = mset gs"
proof -
  obtain groups where g: "list_all2 absorbs (safely_merge_words k gs) groups"
    and m: "mset (concat groups) = mset gs"
    using safely_merge_words_groups by blast
  have "mset (sort_contours_by_path_v8 (safely_merge_words k gs)) = mset (safely_merge_words k gs)"
    by (rule mset_sort_v8)
  from list_all2_reorder_left_invariance[OF g this]
  obtain groups' where "list_all2 absorbs (sort_contours_by_path_v8 (safely_merge_words k gs)) groups'"
    and "mset groups' = mset groups" by blast
  then show ?thesis using m mset_concat_cong by metis
qed

lemma groups_concat:
  assumes "\<forall>i\<in>set ks. \<exists>gr. list_all2 R (f i) gr \<and> mset (concat gr) = mset (h i)"
  shows "\<exists>groups. list_all2 R (concat (map f ks)) groups \<and>
                  mset (concat groups) = mset (concat (map h ks))"
  using assms
proof (induction ks)
  case Nil
  then show ?case by simp
next
  case (Cons i ks)
  then obtain gr where gr: "list_all2 R (f i) gr" "mset (concat gr) = mset (h i)" by auto
  from Cons obtain groups where g: "list_all2 R (concat (map f ks)) groups"
    "mset (concat groups) = mset (concat (map h ks))" by auto
  have "list_all2 R (concat (map f (i # ks))) (gr @ groups)"
    using gr(1) g(1) by (simp add: list_all2_appendI)
  moreover have "mset (concat (gr @ groups)) = mset (concat (map h (i # ks)))"
    using gr(2) g(2) by simp
  ultimately show ?case by blast
qed

lemma process_sections_list:
  "section_list (process_sections raw) i
     = sort_contours_by_path_v8 (safely_merge_words v8_consts (section_list raw i))"
  by (cases "raw i")
     (simp_all add: section_list_def process_sections_def sort_contours_by_path_v8_def
                    safely_merge_words_def)

lemma sections_cover:
  assumes "segs \<noteq> []" "0 < new_w" "\<forall>g\<in>set glyphs. 0 \<le> glyph_x g \<and> 0 \<le> glyph_w g"
  shows "mset (concat (map (\<lambda>i. filter (\<lambda>g. glyph_section_idx new_w segs g = Inr i) glyphs)
                           (map int [0..<length segs]))) = mset glyphs"
proof -
  let ?f = "glyph_section_idx new_w segs"
  let ?ks = "map Inr (map int [0..<length segs]) :: (py_error + int) list"
  have d: "distinct ?ks" by (simp add: distinct_map inj_on_def)
  have "\<forall>g\<in>set glyphs. ?f g \<in> set ?ks"
  proof
    fix g assume "g \<in> set glyphs"
    then have g: "0 \<le> glyph_x g" "0 \<le> glyph_w g" using assms(3) by auto
    let ?i = "min \<lfloor>(real_of_int (glyph_x g) + real_of_int (glyph_w g) / 2)
                         / (real_of_int new_w / real (length segs))\<rfloor> (int (length segs) - 1)"
    have e: "?f g = Inr ?i" and nn: "0 \<le> ?i"
      using glyph_section_idx_valid[OF assms(1,2) g] by auto
    have "?i < int (length segs)" by simp
    with nn have "?i \<in> int ` {0..<length segs}"
      by (metis atLeastLessThan_iff image_eqI int_nat_eq nat_less_iff zero_le)
    then show "?f g \<in> set ?ks" using e by auto
  qed
  from mset_partition_by_key[OF d this]
  show ?thesis by (simp add: comp_def)
qed


text \<open>
  Claim C9. With \<open>n \<ge> 1\<close> timed segments, a resized image of positive width and glyph boxes
  as the component statistics give them (non-negative left edge and width), the step never
  fails, and every glyph receives the section index
  \<open>min (floor (center_x / (image_width / n))) (n - 1)\<close>, which lies in \<open>[0, n - 1]\<close>; a glyph
  whose box centre lies on or beyond the right image edge receives \<open>n - 1\<close>. The section
  stored under an index holds exactly the glyphs with that index, in detection order, no
  other key is used, and the sections \<open>0 .. n - 1\<close> together hold every glyph exactly once.
\<close>

theorem sections_partition_glyphs:
  assumes "segs \<noteq> []" and "0 < new_w"
    and "\<forall>g\<in>set glyphs. 0 \<le> glyph_x g \<and> 0 \<le> glyph_w g"
  shows "\<exists>secs. assign_sections new_w segs Map.empty glyphs = Inr secs
           \<and> (\<forall>g\<in>set glyphs. \<exists>i.
                 glyph_section_idx new_w segs g = Inr i
                 \<and> i = min \<lfloor>(real_of_int (glyph_x g) + real_of_int (glyph_w g) / 2)
                               / (real_of_int new_w / real (length segs))\<rfloor>
                            (int (length segs) - 1)
                 \<and> 0 \<le> i \<and> i \<le> int (length segs) - 1
                 \<and> (real_of_int new_w \<le> real_of_int (glyph_x g) + real_of_int (glyph_w g) / 2
                      \<longrightarrow> i = int (length segs) - 1))
           \<and> (\<forall>i. section_list secs i = filter (\<lambda>g. glyph_section_idx new_w segs g = Inr i) glyphs)
           \<and> dom secs \<subseteq> {0 .. int (length segs) - 1}
           \<and> mset (concat (map (section_list secs) (map int [0..<length segs]))) = mset glyphs"
proof -
  have sw: "section_width new_w segs \<noteq> 0"
    using assms(1,2) by (simp add: section_width_def num_sections_def)
  from assign_sections_ok[OF sw, of Map.empty glyphs] obtain secs where
    s: "assign_sections new_w segs Map.empty glyphs = Inr secs"
    and l: "\<forall>i. section_list secs i = filter (\<lambda>g. glyph_section_idx new_w segs g = Inr i) glyphs"
    and d: "dom secs = {i. \<exists>g\<in>set glyphs. glyph_section_idx new_w segs g = Inr i}"
    by (auto simp: section_list_def)
  have each: "\<forall>g\<in>set glyphs. \<exists>i.
                 glyph_section_idx new_w segs g = Inr i
                 \<and> i = min \<lfloor>(real_of_int (glyph_x g) + real_of_int (glyph_w g) / 2)
                               / (real_of_int new_w / real (length segs))\<rfloor>
                            (int (length segs) - 1)
                 \<and> 0 \<le> i \<and> i \<le> int (length segs) - 1
                 \<and> (real_of_int new_w \<le> real_of_int (glyph_x g) + real_of_int (glyph_w g) / 2
                      \<longrightarrow> i = int (length segs) - 1)"
  proof
    fix g assume "g \<in> set glyphs"
    then have g: "0 \<le> glyph_x g" "0 \<le> glyph_w g" using assms(3) by auto
    show "\<exists>i. glyph_section_idx new_w segs g = Inr i
                 \<and> i = min \<lfloor>(real_of_int (glyph_x g) + real_of_int (glyph_w g) / 2)
                               / (real_of_int new_w / real (length segs))\<rfloor>
                            (int (length segs) - 1)
                 \<and> 0 \<le> i \<and> i \<le> int (length segs) - 1
                 \<and> (real_of_int new_w \<le> real_of_int (glyph_x g) + real_of_int (glyph_w g) / 2
                      \<longrightarrow> i = int (length segs) - 1)"
      using glyph_section_idx_valid[OF assms(1,2) g] glyph_section_idx_clamped[OF assms(1,2) g]
      by auto
  qed
  have dom: "dom secs \<subseteq> {0 .. int (length segs) - 1}"
  proof
    fix i assume "i \<in> dom secs"
    then obtain g where "g \<in> set glyphs" "glyph_section_idx new_w segs g = Inr i"
      using d by auto
    with each show "i \<in> {0 .. int (length segs) - 1}" by fastforce
  qed
  have "section_list secs = (\<lambda>i. filter (\<lambda>g. glyph_section_idx new_w segs g = Inr i) glyphs)"
    using l by auto
  then have "mset (concat (map (section_list secs) (map int [0..<length segs]))) = mset glyphs"
    using sections_cover[OF assms] by (simp only:)
  with s each l dom show ?thesis by blast
qed

theorem sections_partition_glyphs_witness:
  "\<exists>secs. assign_sections 1920 two_segments Map.empty [letter_at 1 100, letter_at 2 1915] = Inr secs
          \<and> section_list secs 0 = [letter_at 1 100]
          \<and> section_list secs 1 = [letter_at 2 1915]
          \<and> glyph_section_idx 1920 two_segments (letter_at 2 1915) = Inr 1"
proof -
  have h: "two_segments \<noteq> []" "(0::int) < 1920"
    "\<forall>g\<in>set [letter_at 1 100, letter_at 2 1915]. 0 \<le> glyph_x g \<and> 0 \<le> glyph_w g"
    by (simp_all add: two_segments_def letter_at_def)
  have i0: "glyph_section_idx 1920 two_segments (letter_at 1 100) = Inr 0"
    by (simp add: glyph_section_idx_def section_width_def num_sections_def two_segments_def
                  letter_at_def py_int_def Let_def)
  have i1: "glyph_section_idx 1920 two_segments (letter_at 2 1915) = Inr 1"
    by (simp add: glyph_section_idx_def section_width_def num_sections_def two_segments_def
                  letter_at_def py_int_def Let_def)
  from sections_partition_glyphs[OF h] obtain secs where
    "assign_sections 1920 two_segments Map.empty [letter_at 1 100, letter_at 2 1915] = Inr secs"
    "\<forall>i. section_list secs i
         = filter (\<lambda>g. glyph_section_idx 1920 two_segments g = Inr i) [letter_at 1 100, letter_at 2 1915]"
    by blast
  then show ?thesis using i0 i1 by auto
qed


lemma draw_sequence_sections:
  assumes "segs \<noteq> []"
  shows "draw_sequence secs segs = concat (map (section_list secs) (map int [0..<length segs]))"
proof -
  have "map (\<lambda>seg. section_list secs (section_idx seg)) (segment_times segs)
        = map (section_list secs) (map section_idx (segment_times segs))"
    by simp
  then show ?thesis
    unfolding draw_sequence_def segment_times_indices[OF assms, symmetric] by (simp only:)
qed

lemma pipeline_units:
  assumes "segs \<noteq> []" and "0 < new_w"
    and "\<forall>g\<in>set detected. 0 \<le> glyph_x g \<and> 0 \<le> glyph_w g"
  shows "\<exists>secs groups. build_glyph_sections new_w segs detected = Inr secs
            \<and> list_all2 absorbs (draw_sequence secs segs) groups
            \<and> mset (concat groups) = mset detected"
proof -
  let ?F = "\<lambda>i. filter (\<lambda>g. glyph_section_idx new_w segs g = Inr i) detected"
  let ?S = "\<lambda>i. sort_contours_by_path_v8 (safely_merge_words v8_consts (?F i))"
  let ?ks = "map int [0..<length segs]"
  have sw: "section_width new_w segs \<noteq> 0"
    using assms(1,2) by (simp add: section_width_def num_sections_def)
  from assign_sections_ok[OF sw, of Map.empty detected] obtain raw where
    s: "assign_sections new_w segs Map.empty detected = Inr raw"
    and l: "\<forall>i. section_list raw i = ?F i"
    by (auto simp: section_list_def)
  have b: "build_glyph_sections new_w segs detected = Inr (process_sections raw)"
    using s by (simp add: build_glyph_sections_def)
  have "section_list (process_sections raw) = ?S"
    using l by (auto simp: process_sections_list)
  then have ds: "draw_sequence (process_sections raw) segs = concat (map ?S ?ks)"
    using draw_sequence_sections[OF assms(1)] by (simp only:)
  have "\<forall>i\<in>set ?ks. \<exists>gr. list_all2 absorbs (?S i) gr \<and> mset (concat gr) = mset (?F i)"
    using sort_merge_groups by blast
  from groups_concat[OF this] obtain groups where
    g: "list_all2 absorbs (concat (map ?S ?ks)) groups"
    and m: "mset (concat groups) = mset (concat (map ?F ?ks))"
    by blast
  have "mset (concat groups) = mset detected"
    using m sections_cover[OF assms] by (simp only:)
  with b g ds show ?thesis by metis
qed

text \<open>
  Claim C2. Each path-sequencing strategy returns a permutation of its input: the
  reading-order line clustering of V8, the nearest-neighbour pen simulation of V7.3 (which
  also never fails on an index) and the macro/micro split of V8.1. Consequently, in the V8
  pipeline with timed segments (a resized image of positive width, glyph boxes with
  non-negative left edge and width), the units of all segments' draw sequences account for
  exactly the detected glyphs: the detected glyphs split into groups, one for each drawn
  unit and in drawing order, where a unit carries the contours, area and length of the
  glyphs of its group (a group of one is the glyph itself, a larger group is a merged
  word), and every detected glyph is in exactly one group.
\<close>

theorem sequencers_return_permutations:
  "mset (sort_contours_by_path_v8 glyphs) = mset glyphs
   \<and> (\<exists>ordered. sort_contours_by_path_v7_3 glyphs = Inr ordered \<and> mset ordered = mset glyphs)
   \<and> mset (sort_contours_by_path_v8_1 glyphs) = mset glyphs
   \<and> (segs \<noteq> [] \<and> 0 < new_w \<and> (\<forall>g\<in>set detected. 0 \<le> glyph_x g \<and> 0 \<le> glyph_w g) \<longrightarrow>
        (\<exists>secs groups. build_glyph_sections new_w segs detected = Inr secs
            \<and> list_all2 absorbs (draw_sequence secs segs) groups
            \<and> mset (concat groups) = mset detected))"
  using mset_sort_v8 sort_v7_3_perm mset_sort_v8_1 pipeline_units by blast

theorem sequencers_return_permutations_witness:
  "mset (sort_contours_by_path_v8 [letter_at 2 125, letter_at 1 100])
     = {#letter_at 1 100, letter_at 2 125#}
   \<and> (\<exists>ordered. sort_contours_by_path_v7_3 [letter_at 2 125, letter_at 1 100] = Inr ordered
         \<and> mset ordered = {#letter_at 1 100, letter_at 2 125#})
   \<and> mset (sort_contours_by_path_v8_1 [letter_at 2 125, letter_at 1 100])
     = {#letter_at 1 100, letter_at 2 125#}
   \<and> (\<exists>secs groups.
         build_glyph_sections 1920 two_segments [letter_at 1 100, letter_at 2 1915] = Inr secs
         \<and> list_all2 absorbs (draw_sequence secs two_segments) groups
         \<and> mset (concat groups) = {#letter_at 1 100, letter_at 2 1915#})"
proof -
  have h: "two_segments \<noteq> [] \<and> (0::int) < 1920
           \<and> (\<forall>g\<in>set [letter_at 1 100, letter_at 2 1915]. 0 \<le> glyph_x g \<and> 0 \<le> glyph_w g)"
    by (simp add: two_segments_def letter_at_def)
  show ?thesis
    using h sequencers_return_permutations
          [of "[letter_at 2 125, letter_at 1 100]" two_segments 1920 "[letter_at 1 100, letter_at 2 1915]"]
    by (simp add: add_mset_commute)
qed

section \<open>The example images\<close>

lemma sum_concat_replicate:
  "sum_list (map f (concat (replicate n xs))) = n * sum_list (map f xs)" for f :: "'a \<Rightarrow> nat"
  by (induction n) (simp_all add: algebra_simps)

lemma length_concat_replicate: "length (concat (replicate n xs)) = n * length xs"
  by (induction n) simp_all

lemma sum_replicate_const: "sum_list (replicate n c) = n * c" for c :: nat
  by (induction n) simp_all

lemma mean_uniform_gray:
  assumes "0 < rows" "0 < cols"
  shows "mean_brightness (uniform_gray rows cols v) = real (unat v)"
  using assms
  by (simp add: mean_brightness_def uniform_gray_def sum_concat_replicate length_concat_replicate
                sum_replicate_const)

lemma example_gray_light: "\<not> is_dark_bg example_gray"
  by (simp add: is_dark_bg_def mean_brightness_def example_gray_def sum_concat_replicate
                length_concat_replicate sum_replicate_const)

lemma uniform_dark: "is_dark_bg (uniform_gray 1080 1920 10)"
  by (simp add: is_dark_bg_def mean_uniform_gray)

lemma uniform_light: "\<not> is_dark_bg (uniform_gray 1080 1080 255)"
  by (simp add: is_dark_bg_def mean_uniform_gray)

section \<open>Properties of the ink extractor and the background\<close>

text \<open>
  Claim C6, as the specification states it, fails for the styles \<open>normal\<close> and \<open>solid\<close>:
  the Otsu branch returns the thresholded map as it is.
\<close>

theorem otsu_styles_have_no_opening:
  "\<not> opened_threshold (snd (get_cleaned_image ''normal'' example_gray))
   \<and> \<not> opened_threshold (snd (get_cleaned_image ''solid'' example_gray))
   \<and> snd (get_cleaned_image ''normal'' example_gray)
       = ThresholdOtsu (GaussianBlur (Gray example_gray) (3, 3)) THRESH_BINARY_INV"
  using example_gray_light by (simp add: get_cleaned_image_def thresh_type_of_def)

text \<open>
  Claim C6, amended. For the style \<open>pencil\<close> (any selector other than \<open>solid\<close> and
  \<open>normal\<close>) the adaptive threshold (block 11, constant 2) is followed by a morphological
  opening with a 2 by 2 rectangle; for \<open>solid\<close> and \<open>normal\<close> the ink map is the Otsu
  threshold of the image blurred with a 3 by 3 Gaussian, with no opening. For every style
  the ink map has the dimensions of the grey image of the normalized input.
\<close>

theorem opening_only_after_adaptive_threshold:
  "(style \<noteq> ''solid'' \<and> style \<noteq> ''normal'' \<longrightarrow>
      snd (get_cleaned_image style gray)
        = MorphOpenRect (AdaptiveThresholdGaussian (Gray gray) (thresh_type_of (is_dark_bg gray)) 11 2) (2, 2)
      \<and> opened_threshold (snd (get_cleaned_image style gray)))
   \<and> (style = ''solid'' \<or> style = ''normal'' \<longrightarrow>
      snd (get_cleaned_image style gray)
        = ThresholdOtsu (GaussianBlur (Gray gray) (3, 3)) (thresh_type_of (is_dark_bg gray))
      \<and> \<not> opened_threshold (snd (get_cleaned_image style gray)))
   \<and> shape (snd (get_cleaned_image style gray)) = shape (Gray gray)"
  by (simp add: get_cleaned_image_def Let_def)

theorem opening_only_after_adaptive_threshold_witness:
  "opened_threshold (snd (get_cleaned_image ''pencil'' example_gray))
   \<and> \<not> opened_threshold (snd (get_cleaned_image ''solid'' example_gray))
   \<and> shape (snd (get_cleaned_image ''pencil'' example_gray)) = shape (Gray example_gray)"
  using opening_only_after_adaptive_threshold [of "''pencil''" example_gray]
        opening_only_after_adaptive_threshold [of "''solid''" example_gray]
  by simp

text \<open>
  Claim C8. The background is classified as dark exactly when the mean of the grey image
  of the resized input is below 127. When it is dark, the threshold type is
  \<^verbatim>\<open>THRESH_BINARY\<close>, under which exactly the pixels brighter than the threshold become
  foreground; the reference canvas is black wherever no ink is copied, and every rendered
  frame is black wherever the reveal mask is not set. Otherwise the type is
  \<^verbatim>\<open>THRESH_BINARY_INV\<close>, under which exactly the pixels not brighter than the threshold
  become foreground, and canvas and frames start from white.
\<close>

theorem background_classification:
  assumes "generate_env style segs gray ink_map original_resized new_w new_h glyphs = Inr env"
  shows "env_is_dark_bg env = (mean_brightness gray < 127)
   \<and> fst (get_cleaned_image style gray) = (mean_brightness gray < 127)
   \<and> (mean_brightness gray < 127 \<longrightarrow>
        blank_canvas (env_is_dark_bg env) p = (0, 0, 0)
        \<and> (\<not> reveal_mask raster env t p \<longrightarrow> make_frame raster env t p = (0, 0, 0))
        \<and> (ink_map (fst p - (WIDTH - new_w) div 2, snd p - (HEIGHT - new_h) div 2) = 0
             \<longrightarrow> env_full_canvas_ref env p = (0, 0, 0))
        \<and> snd (get_cleaned_image style gray)
            = (if style = ''solid'' \<or> style = ''normal''
               then ThresholdOtsu (GaussianBlur (Gray gray) (3, 3)) THRESH_BINARY
               else MorphOpenRect (AdaptiveThresholdGaussian (Gray gray) THRESH_BINARY 11 2) (2, 2))
        \<and> apply_thresh (thresh_type_of (env_is_dark_bg env)) thr v = (if unat v > thr then 255 else 0))
   \<and> (\<not> mean_brightness gray < 127 \<longrightarrow>
        blank_canvas (env_is_dark_bg env) p = (255, 255, 255)
        \<and> (\<not> reveal_mask raster env t p \<longrightarrow> make_frame raster env t p = (255, 255, 255))
        \<and> (ink_map (fst p - (WIDTH - new_w) div 2, snd p - (HEIGHT - new_h) div 2) = 0
             \<longrightarrow> env_full_canvas_ref env p = (255, 255, 255))
        \<and> snd (get_cleaned_image style gray)
            = (if style = ''solid'' \<or> style = ''normal''
               then ThresholdOtsu (GaussianBlur (Gray gray) (3, 3)) THRESH_BINARY_INV
               else MorphOpenRect (AdaptiveThresholdGaussian (Gray gray) THRESH_BINARY_INV 11 2) (2, 2))
        \<and> apply_thresh (thresh_type_of (env_is_dark_bg env)) thr v = (if unat v > thr then 0 else 255))"
proof -
  have dark: "fst (get_cleaned_image style gray) = (mean_brightness gray < 127)"
    by (simp add: get_cleaned_image_def is_dark_bg_def Let_def)
  from assms obtain secs where env:
    "env = \<lparr>env_is_dark_bg = fst (get_cleaned_image style gray), env_style = style,
            env_segments = segs, env_glyph_sections = secs,
            env_full_canvas_ref = full_canvas_ref (fst (get_cleaned_image style gray))
              ((WIDTH - new_w) div 2) ((HEIGHT - new_h) div 2) new_w new_h ink_map original_resized\<rparr>"
    by (auto simp: generate_env_def Let_def split: sum.splits)
  have e: "env_is_dark_bg env = (mean_brightness gray < 127)"
    using dark by (simp add: env)
  show ?thesis
    using dark e
    by (auto simp: env blank_canvas_def make_frame_def reverse_channels_def full_canvas_ref_def
                   get_cleaned_image_def is_dark_bg_def thresh_type_of_def apply_thresh_def Let_def)
qed

theorem background_classification_witness:
  "\<exists>env. generate_env ''normal'' two_segments (uniform_gray 1080 1920 10) (\<lambda>p. 0) (\<lambda>p. (1, 2, 3)) 1920 1080 []
            = Inr env
         \<and> env_is_dark_bg env
         \<and> blank_canvas (env_is_dark_bg env) (5, 5) = (0, 0, 0)
         \<and> env_full_canvas_ref env (5, 5) = (0, 0, 0)"
proof -
  have m: "mean_brightness (uniform_gray 1080 1920 10) < 127"
    using uniform_dark by (simp add: is_dark_bg_def)
  obtain env where g:
    "generate_env ''normal'' two_segments (uniform_gray 1080 1920 10) (\<lambda>p. 0) (\<lambda>p. (1, 2, 3)) 1920 1080 [] = Inr env"
    by (simp add: generate_env_def build_glyph_sections_def Let_def)
  from background_classification
         [OF g, where p = "(5, 5)" and raster = "\<lambda>cmd q. False" and t = 0 and thr = 0 and v = 0] m
  have "env_is_dark_bg env \<and> blank_canvas (env_is_dark_bg env) (5, 5) = (0, 0, 0)
        \<and> env_full_canvas_ref env (5, 5) = (0, 0, 0)"
    by blast
  with g show ?thesis by blast
qed

section \<open>Properties of the frame renderer\<close>

lemma fill_glyphs_all_contours:
  "fill_glyphs gs = map (\<lambda>c. DrawContoursFilled (pts c)) (all_contours gs)"
  by (induction gs) (simp_all add: fill_glyphs_def fill_glyph_def all_contours_def)

lemma fill_glyphs_append: "fill_glyphs (xs @ ys) = fill_glyphs xs @ fill_glyphs ys"
  by (simp add: fill_glyphs_def)

lemma filter_fill_glyph: "filter is_fill (fill_glyph g) = fill_glyph g"
  by (simp add: fill_glyph_def filter_map comp_def)

lemma filter_fill_glyphs: "filter is_fill (fill_glyphs gs) = fill_glyphs gs"
  by (simp add: fill_glyphs_all_contours filter_map comp_def)

lemma active_fill_prefix:
  "prefix (filter is_fill (active_cmds style T cur cs)) (map (\<lambda>c. DrawContoursFilled (pts c)) cs)"
  by (induction cs arbitrary: cur) (simp_all add: Let_def)

lemma active_strokes:
  "cmd \<in> set (active_cmds style T cur cs) \<Longrightarrow> \<not> is_fill cmd \<Longrightarrow>
     \<exists>c\<in>set cs. \<exists>n. cmd = Polylines (take n (pts c)) (thickness style)"
proof (induction cs arbitrary: cur)
  case Nil
  then show ?case by simp
next
  case (Cons c cs)
  show ?case
  proof (cases "cur + len c \<le> T")
    case True
    with Cons.prems have "cmd \<in> set (active_cmds style T (cur + len c) cs)"
      by (auto simp: Let_def)
    from Cons.IH[OF this Cons.prems(2)] show ?thesis by auto
  next
    case False
    with Cons.prems show ?thesis by (auto simp: Let_def split: if_splits)
  qed
qed

lemma active_one_stroke:
  "length (filter (\<lambda>cmd. \<not> is_fill cmd) (active_cmds style T cur cs)) \<le> 1"
  by (induction cs arbitrary: cur) (simp_all add: Let_def)

lemma py_int_mono: "r1 \<le> r2 \<Longrightarrow> py_int r1 \<le> py_int r2"
proof -
  assume le: "r1 \<le> r2"
  have "r1 < 0 \<Longrightarrow> 0 \<le> r2 \<Longrightarrow> \<lceil>r1\<rceil> \<le> \<lfloor>r2\<rfloor>"
  proof -
    assume "r1 < 0" "0 \<le> r2"
    then have "\<lceil>r1\<rceil> \<le> 0" "0 \<le> \<lfloor>r2\<rfloor>" by (simp_all add: ceiling_le_iff)
    then show ?thesis by linarith
  qed
  then show ?thesis using le
    by (auto simp: py_int_def floor_mono ceiling_mono)
qed

lemma py_int_nonneg_iff: "0 \<le> r \<Longrightarrow> 0 \<le> py_int r"
  by (simp add: py_int_def)

lemma current_glyph_float_nonneg:
  assumes "seg_start seg \<le> t" "t < seg_end seg"
  shows "0 \<le> current_glyph_float t seg gs"
  using assms by (simp add: current_glyph_float_def)

lemma current_glyph_float_less:
  assumes "seg_start seg \<le> t" "t < seg_end seg" "gs \<noteq> []"
  shows "current_glyph_float t seg gs < real (length gs)"
proof -
  have "(t - seg_start seg) / (seg_end seg - seg_start seg) < 1" using assms by simp
  moreover have "0 < real (length gs)" using assms(3) by simp
  ultimately have "real (length gs) * ((t - seg_start seg) / (seg_end seg - seg_start seg)) < real (length gs) * 1"
    by (rule mult_strict_left_mono)
  then show ?thesis by (simp add: current_glyph_float_def)
qed

lemma current_glyph_idx_range:
  assumes "seg_start seg \<le> t" "t < seg_end seg" "gs \<noteq> []"
  shows "0 \<le> py_int (current_glyph_float t seg gs)"
    and "py_int (current_glyph_float t seg gs) < int (length gs)"
proof -
  let ?f = "current_glyph_float t seg gs"
  have nn: "0 \<le> ?f" using assms(1,2) by (rule current_glyph_float_nonneg)
  then show "0 \<le> py_int ?f" by (rule py_int_nonneg_iff)
  have "?f < real (length gs)" using assms by (rule current_glyph_float_less)
  then have "\<lfloor>?f\<rfloor> < int (length gs)" by (simp add: floor_less_iff)
  then show "py_int ?f < int (length gs)" using nn by (simp add: py_int_def)
qed

text \<open>The shape of the progressive branch once the index is known to be in range.\<close>

lemma progressive_cmds_in_range:
  assumes "0 \<le> py_int (current_glyph_float t seg gs)"
    and "py_int (current_glyph_float t seg gs) < int (length gs)"
  shows "progressive_cmds style t seg gs =
           fill_glyphs (take (nat (py_int (current_glyph_float t seg gs))) gs)
           @ active_cmds style
               (total_len (gs ! nat (py_int (current_glyph_float t seg gs)))
                 * (current_glyph_float t seg gs - real_of_int (py_int (current_glyph_float t seg gs))))
               0 (contours (gs ! nat (py_int (current_glyph_float t seg gs))))"
proof -
  let ?i = "py_int (current_glyph_float t seg gs)"
  have "?i = 0 \<Longrightarrow> fill_glyphs (take (nat ?i) gs) = []" by (simp add: fill_glyphs_def)
  then show ?thesis using assms by (auto simp: progressive_cmds_def Let_def)
qed

lemma fill_glyphs_split:
  assumes "i < length gs"
  shows "fill_glyphs gs = fill_glyphs (take i gs) @ fill_glyph (gs ! i) @ fill_glyphs (drop (Suc i) gs)"
proof -
  have "gs = take i gs @ gs ! i # drop (Suc i) gs" using assms by (rule id_take_nth_drop)
  then have "fill_glyphs gs = fill_glyphs (take i gs @ gs ! i # drop (Suc i) gs)" by simp
  then show ?thesis by (simp add: fill_glyphs_def)
qed

lemma progressive_fill_prefix:
  assumes "seg_start seg \<le> t" "t < seg_end seg" "gs \<noteq> []"
  shows "prefix (filter is_fill (progressive_cmds style t seg gs)) (fill_glyphs gs)"
proof -
  let ?i = "nat (py_int (current_glyph_float t seg gs))"
  note r = current_glyph_idx_range[OF assms]
  have i: "?i < length gs" using r by simp
  let ?A = "active_cmds style
               (total_len (gs ! ?i)
                 * (current_glyph_float t seg gs - real_of_int (py_int (current_glyph_float t seg gs))))
               0 (contours (gs ! ?i))"
  have "prefix (filter is_fill ?A) (fill_glyph (gs ! ?i))"
    unfolding fill_glyph_def by (rule active_fill_prefix)
  then have "prefix (filter is_fill ?A) (fill_glyph (gs ! ?i) @ fill_glyphs (drop (Suc ?i) gs))"
    by (rule prefix_prefix)
  then have "prefix (fill_glyphs (take ?i gs) @ filter is_fill ?A)
                    (fill_glyphs (take ?i gs) @ fill_glyph (gs ! ?i) @ fill_glyphs (drop (Suc ?i) gs))"
    by simp
  then show ?thesis
    unfolding progressive_cmds_in_range[OF r] fill_glyphs_split[OF i, symmetric]
    by (simp add: filter_fill_glyphs)
qed

lemma contours_in_all: "g \<in> set gs \<Longrightarrow> c \<in> set (contours g) \<Longrightarrow> c \<in> set (all_contours gs)"
  by (auto simp: all_contours_def)

lemma progressive_strokes:
  assumes "seg_start seg \<le> t" "t < seg_end seg" "gs \<noteq> []"
    and "cmd \<in> set (progressive_cmds style t seg gs)" "\<not> is_fill cmd"
  shows "\<exists>c\<in>set (all_contours gs). \<exists>n. cmd = Polylines (take n (pts c)) (thickness style)"
proof -
  let ?i = "nat (py_int (current_glyph_float t seg gs))"
  note r = current_glyph_idx_range[OF assms(1-3)]
  have i: "?i < length gs" using r by simp
  have "cmd \<notin> set (fill_glyphs (take ?i gs))"
    using assms(5) by (auto simp: fill_glyphs_all_contours)
  with assms(4) obtain T where "cmd \<in> set (active_cmds style T 0 (contours (gs ! ?i)))"
    unfolding progressive_cmds_in_range[OF r] by auto
  from active_strokes[OF this assms(5)] obtain c n where
    "c \<in> set (contours (gs ! ?i))" "cmd = Polylines (take n (pts c)) (thickness style)" by blast
  moreover have "gs ! ?i \<in> set gs" using i by simp
  ultimately show ?thesis using contours_in_all by blast
qed

lemma progressive_one_stroke:
  assumes "seg_start seg \<le> t" "t < seg_end seg" "gs \<noteq> []"
  shows "length (filter (\<lambda>cmd. \<not> is_fill cmd) (progressive_cmds style t seg gs)) \<le> 1"
proof -
  note r = current_glyph_idx_range[OF assms(1-3)]
  have "filter (\<lambda>cmd. \<not> is_fill cmd) (fill_glyphs (take n gs)) = []" for n
    by (simp add: fill_glyphs_all_contours filter_map comp_def)
  then show ?thesis
    unfolding progressive_cmds_in_range[OF r] using active_one_stroke by simp
qed


lemma segment_cmds_revealed:
  assumes "env_segments env \<noteq> []" and "seg \<in> set (segment_times (env_segments env))"
    and "cmd \<in> set (segment_cmds (env_style env) (env_glyph_sections env) t seg)"
    and "on_canvas p" and "raster cmd p"
  shows "reveal_mask raster env t p"
proof -
  have ne: "segment_times (env_segments env) \<noteq> []" using assms(2) by auto
  have "cmd \<in> set (concat (map (segment_cmds (env_style env) (env_glyph_sections env) t)
                               (segment_times (env_segments env))))"
    using assms(2,3) by auto
  then show ?thesis
    using assms(1,4,5) ne by (auto simp: reveal_mask_def reveal_cmds_def list_ex_iff)
qed

text \<open>
  Claim C3. For a timed segment with \<open>start < end\<close> whose section holds at least one unit:
  at every \<open>t \<ge> end\<close> the commands of the segment are exactly the filled contours of all its
  units, whatever the progress computation would give, so every pixel of the canvas that a
  filled contour of the segment covers is in the reveal mask; at every \<open>t < start\<close> the
  segment contributes nothing; at every \<open>t < end\<close> it is at most fully drawn: its filled
  contours are an initial part of the full drawing, and what is not a filled contour is at
  most one polyline along the first points of one of its contours.
\<close>

theorem segment_timing_exactness:
  assumes "seg_start seg < seg_end seg"
    and "glyph_sections (section_idx seg) = Some gs" and "gs \<noteq> []"
  shows "(seg_end seg \<le> t \<longrightarrow>
            segment_cmds style glyph_sections t seg = fill_glyphs gs
            \<and> (env_segments env \<noteq> [] \<and> seg \<in> set (segment_times (env_segments env))
                \<and> env_glyph_sections env = glyph_sections \<and> env_style env = style \<longrightarrow>
                  (\<forall>g\<in>set gs. \<forall>c\<in>set (contours g). \<forall>p.
                     on_canvas p \<and> raster (DrawContoursFilled (pts c)) p \<longrightarrow> reveal_mask raster env t p)))
   \<and> (t < seg_start seg \<longrightarrow> segment_cmds style glyph_sections t seg = [])
   \<and> (t < seg_end seg \<longrightarrow>
         prefix (filter is_fill (segment_cmds style glyph_sections t seg)) (fill_glyphs gs)
         \<and> (\<forall>cmd\<in>set (segment_cmds style glyph_sections t seg). \<not> is_fill cmd \<longrightarrow>
               (\<exists>c\<in>set (all_contours gs). \<exists>n. cmd = Polylines (take n (pts c)) (thickness style)))
         \<and> length (filter (\<lambda>cmd. \<not> is_fill cmd) (segment_cmds style glyph_sections t seg)) \<le> 1)"
proof (intro conjI impI)
  assume e: "seg_end seg \<le> t"
  then show full: "segment_cmds style glyph_sections t seg = fill_glyphs gs"
    using assms by (simp add: segment_cmds_def)
  assume env: "env_segments env \<noteq> [] \<and> seg \<in> set (segment_times (env_segments env))
                \<and> env_glyph_sections env = glyph_sections \<and> env_style env = style"
  show "\<forall>g\<in>set gs. \<forall>c\<in>set (contours g). \<forall>p.
           on_canvas p \<and> raster (DrawContoursFilled (pts c)) p \<longrightarrow> reveal_mask raster env t p"
  proof (intro ballI allI impI)
    fix g c p
    assume g: "g \<in> set gs" and c: "c \<in> set (contours g)"
      and p: "on_canvas p \<and> raster (DrawContoursFilled (pts c)) p"
    have "DrawContoursFilled (pts c) \<in> set (fill_glyphs gs)"
      using g c by (auto simp: fill_glyphs_def fill_glyph_def)
    then have "DrawContoursFilled (pts c)
                 \<in> set (segment_cmds (env_style env) (env_glyph_sections env) t seg)"
      using full env by simp
    then show "reveal_mask raster env t p"
      using env p segment_cmds_revealed by blast
  qed
next
  assume "t < seg_start seg"
  then show "segment_cmds style glyph_sections t seg = []"
    using assms by (simp add: segment_cmds_def)
next
  assume e: "t < seg_end seg"
  show "prefix (filter is_fill (segment_cmds style glyph_sections t seg)) (fill_glyphs gs)"
  proof (cases "t < seg_start seg")
    case True
    then show ?thesis using assms by (simp add: segment_cmds_def)
  next
    case False
    then have s: "seg_start seg \<le> t" by simp
    have "segment_cmds style glyph_sections t seg = progressive_cmds style t seg gs"
      using assms e False by (simp add: segment_cmds_def)
    then show ?thesis using progressive_fill_prefix[OF s e assms(3)] by simp
  qed
  show "\<forall>cmd\<in>set (segment_cmds style glyph_sections t seg). \<not> is_fill cmd \<longrightarrow>
           (\<exists>c\<in>set (all_contours gs). \<exists>n. cmd = Polylines (take n (pts c)) (thickness style))"
  proof (cases "t < seg_start seg")
    case True
    then show ?thesis using assms by (simp add: segment_cmds_def)
  next
    case False
    then have s: "seg_start seg \<le> t" by simp
    have "segment_cmds style glyph_sections t seg = progressive_cmds style t seg gs"
      using assms e False by (simp add: segment_cmds_def)
    then show ?thesis using progressive_strokes[OF s e assms(3)] by auto
  qed
  show "length (filter (\<lambda>cmd. \<not> is_fill cmd) (segment_cmds style glyph_sections t seg)) \<le> 1"
  proof (cases "t < seg_start seg")
    case True
    then show ?thesis using assms by (simp add: segment_cmds_def)
  next
    case False
    then have s: "seg_start seg \<le> t" by simp
    have "segment_cmds style glyph_sections t seg = progressive_cmds style t seg gs"
      using assms e False by (simp add: segment_cmds_def)
    then show ?thesis using progressive_one_stroke[OF s e assms(3)] by simp
  qed
qed

theorem segment_timing_exactness_witness:
  "segment_cmds ''normal'' [0 \<mapsto> [letter_at 1 100]] 2 \<lparr>section_idx = 0, seg_start = 0, seg_end = 2\<rparr>
     = fill_glyphs [letter_at 1 100]
   \<and> segment_cmds ''normal'' [0 \<mapsto> [letter_at 1 100]] (- 1) \<lparr>section_idx = 0, seg_start = 0, seg_end = 2\<rparr>
     = []
   \<and> prefix (filter is_fill (segment_cmds ''normal'' [0 \<mapsto> [letter_at 1 100]] 1
                               \<lparr>section_idx = 0, seg_start = 0, seg_end = 2\<rparr>))
            (fill_glyphs [letter_at 1 100])"
proof -
  have h: "seg_start \<lparr>section_idx = 0, seg_start = 0, seg_end = 2\<rparr>
             < seg_end \<lparr>section_idx = 0, seg_start = 0, seg_end = 2\<rparr>"
    "[0 \<mapsto> [letter_at 1 100]] (section_idx \<lparr>section_idx = 0, seg_start = 0, seg_end = 2\<rparr>)
       = Some [letter_at 1 100]"
    "[letter_at 1 100] \<noteq> []"
    by simp_all
  note inst = segment_timing_exactness
    [where glyph_sections = "[0 \<mapsto> [letter_at 1 100]]"
       and seg = "\<lparr>section_idx = 0, seg_start = 0, seg_end = 2\<rparr>"
       and gs = "[letter_at 1 100]" and style = "''normal''", OF h]
  show ?thesis
    using inst[where t = 2] inst[where t = "- 1"] inst[where t = 1]
    by simp
qed

section \<open>The reveal over time\<close>

lemma evolves_Nil [simp]: "evolves C [] later"
  by (simp add: evolves_def)

lemma evolves_mono:
  "evolves C a b \<Longrightarrow> C \<subseteq> C' \<Longrightarrow> set b \<subseteq> set b' \<Longrightarrow> evolves C' a b'"
  unfolding evolves_def by (meson subsetD)

lemma evolves_append_left:
  "evolves C a b \<Longrightarrow> evolves C a' b \<Longrightarrow> evolves C (a @ a') b"
  unfolding evolves_def by auto

lemma evolves_fills:
  "\<forall>cmd\<in>set a. is_fill cmd \<Longrightarrow> set a \<subseteq> set b \<Longrightarrow> evolves C a b"
  unfolding evolves_def by auto

lemma fill_glyphs_are_fills: "\<forall>cmd\<in>set (fill_glyphs gs). is_fill cmd"
  by (auto simp: fill_glyphs_all_contours)

lemma active_cmds_cases:
  assumes "cmd \<in> set (active_cmds style T cur cs)"
  shows "(\<exists>c\<in>set cs. cmd = DrawContoursFilled (pts c)) \<or>
         (\<exists>c\<in>set cs. \<exists>n. cmd = Polylines (take n (pts c)) (thickness style))"
proof (cases "is_fill cmd")
  case True
  then have "cmd \<in> set (filter is_fill (active_cmds style T cur cs))" using assms by simp
  then have "cmd \<in> set (map (\<lambda>c. DrawContoursFilled (pts c)) cs)"
    using active_fill_prefix set_mono_prefix by blast
  then show ?thesis by auto
next
  case False
  then show ?thesis using active_strokes[OF assms] by blast
qed

lemma active_evolves_full:
  assumes "\<forall>c\<in>set cs. DrawContoursFilled (pts c) \<in> set later"
  shows "evolves (set cs) (active_cmds style T cur cs) later"
  unfolding evolves_def
proof
  fix cmd assume "cmd \<in> set (active_cmds style T cur cs)"
  from active_cmds_cases[OF this] show
    "(is_fill cmd \<and> cmd \<in> set later) \<or>
     (\<exists>c\<in>set cs. \<exists>n th. cmd = Polylines (take n (pts c)) th \<and>
        (DrawContoursFilled (pts c) \<in> set later \<or> (\<exists>m\<ge>n. Polylines (take m (pts c)) th \<in> set later)))"
    using assms by fastforce
qed

lemma stroke_points_mono:
  assumes "n1 \<le> n2" "0 < c_len" "0 \<le> num"
  shows "py_int (n1 / c_len * num) \<le> py_int (n2 / c_len * num)"
proof -
  have "n1 / c_len \<le> n2 / c_len" using assms(1,2) by (simp add: divide_right_mono)
  then have "n1 / c_len * num \<le> n2 / c_len * num" using assms(3) by (rule mult_right_mono)
  then show ?thesis by (rule py_int_mono)
qed

lemma active_evolves:
  assumes "T1 \<le> T2"
  shows "evolves (set cs) (active_cmds style T1 cur cs) (active_cmds style T2 cur cs)"
proof (induction cs arbitrary: cur)
  case Nil
  then show ?case by simp
next
  case (Cons c cs)
  show ?case
  proof (cases "cur + len c \<le> T1")
    case True
    then have T2: "cur + len c \<le> T2" using assms by simp
    have rest: "evolves (set (c # cs)) (active_cmds style T1 (cur + len c) cs)
                  (DrawContoursFilled (pts c) # active_cmds style T2 (cur + len c) cs)"
      using Cons.IH[of "cur + len c"] by (rule evolves_mono) auto
    have "evolves (set (c # cs)) [DrawContoursFilled (pts c)]
                  (DrawContoursFilled (pts c) # active_cmds style T2 (cur + len c) cs)"
      by (rule evolves_fills) auto
    from evolves_append_left[OF this rest] show ?thesis using True T2 by (simp add: Let_def)
  next
    case False
    note F1 = False
    let ?n1 = "py_int ((T1 - cur) / len c * real (length (pts c)))"
    let ?n2 = "py_int ((T2 - cur) / len c * real (length (pts c)))"
    show ?thesis
    proof (cases "T1 - cur > 0 \<and> len c > 0 \<and> ?n1 > 0")
      case False
      then have "active_cmds style T1 cur (c # cs) = []" using F1 by (auto simp: Let_def)
      then show ?thesis by simp
    next
      case True
      then have e: "active_cmds style T1 cur (c # cs) = [Polylines (take (nat ?n1) (pts c)) (thickness style)]"
        using F1 by (simp add: Let_def)
      show ?thesis
      proof (cases "cur + len c \<le> T2")
        case True
        then have "DrawContoursFilled (pts c) \<in> set (active_cmds style T2 cur (c # cs))"
          by (simp add: Let_def)
        then show ?thesis unfolding e evolves_def by auto
      next
        case False
        have le: "?n1 \<le> ?n2"
          using True assms by (intro stroke_points_mono) auto
        then have "active_cmds style T2 cur (c # cs) = [Polylines (take (nat ?n2) (pts c)) (thickness style)]"
          using False True assms by (simp add: Let_def)
        moreover have "nat ?n1 \<le> nat ?n2" using le by simp
        ultimately show ?thesis unfolding e evolves_def by auto
      qed
    qed
  qed
qed


lemma fill_glyph_in_fill_glyphs:
  "g \<in> set gs \<Longrightarrow> c \<in> set (contours g) \<Longrightarrow> DrawContoursFilled (pts c) \<in> set (fill_glyphs gs)"
  by (auto simp: fill_glyphs_def fill_glyph_def)

lemma fill_glyphs_take_subset:
  "i \<le> j \<Longrightarrow> set (fill_glyphs (take i gs)) \<subseteq> set (fill_glyphs (take j gs))"
  using set_take_subset_set_take[of i j gs] by (auto simp: fill_glyphs_def)

lemma fill_glyphs_take_subset_all: "set (fill_glyphs (take i gs)) \<subseteq> set (fill_glyphs gs)"
  using set_take_subset[of i gs] by (auto simp: fill_glyphs_def)

lemma current_glyph_float_mono:
  assumes "t1 \<le> t2" "seg_start seg < seg_end seg"
  shows "current_glyph_float t1 seg gs \<le> current_glyph_float t2 seg gs"
proof -
  have "(t1 - seg_start seg) / (seg_end seg - seg_start seg)
        \<le> (t2 - seg_start seg) / (seg_end seg - seg_start seg)"
    using assms by (simp add: divide_right_mono)
  then show ?thesis
    unfolding current_glyph_float_def by (rule mult_left_mono) simp
qed

lemma progressive_evolves_full:
  assumes "seg_start seg \<le> t" "t < seg_end seg" "gs \<noteq> []"
  shows "evolves (set (all_contours gs)) (progressive_cmds style t seg gs) (fill_glyphs gs)"
proof -
  let ?i = "nat (py_int (current_glyph_float t seg gs))"
  note r = current_glyph_idx_range[OF assms]
  have i: "?i < length gs" using r by simp
  then have g: "gs ! ?i \<in> set gs" by simp
  have a: "evolves (set (all_contours gs)) (fill_glyphs (take ?i gs)) (fill_glyphs gs)"
    using fill_glyphs_are_fills fill_glyphs_take_subset_all by (rule evolves_fills)
  have "\<forall>c\<in>set (contours (gs ! ?i)). DrawContoursFilled (pts c) \<in> set (fill_glyphs gs)"
    using g fill_glyph_in_fill_glyphs by blast
  then have "evolves (set (contours (gs ! ?i))) (active_cmds style T 0 (contours (gs ! ?i))) (fill_glyphs gs)" for T
    by (rule active_evolves_full)
  moreover have "set (contours (gs ! ?i)) \<subseteq> set (all_contours gs)"
    using g by (auto simp: all_contours_def)
  ultimately have b: "evolves (set (all_contours gs)) (active_cmds style T 0 (contours (gs ! ?i))) (fill_glyphs gs)" for T
    using evolves_mono by blast
  show ?thesis
    unfolding progressive_cmds_in_range[OF r] using a b by (rule evolves_append_left)
qed

lemma progressive_evolves:
  assumes "seg_start seg \<le> t1" "t1 \<le> t2" "t2 < seg_end seg" "gs \<noteq> []"
    and "\<forall>g\<in>set gs. 0 \<le> total_len g"
  shows "evolves (set (all_contours gs)) (progressive_cmds style t1 seg gs) (progressive_cmds style t2 seg gs)"
proof -
  let ?f1 = "current_glyph_float t1 seg gs" and ?f2 = "current_glyph_float t2 seg gs"
  let ?i1 = "nat (py_int ?f1)" and ?i2 = "nat (py_int ?f2)"
  have lt: "seg_start seg < seg_end seg" and t1e: "t1 < seg_end seg" and st2: "seg_start seg \<le> t2"
    using assms by auto
  note r1 = current_glyph_idx_range[OF assms(1) t1e assms(4)]
  note r2 = current_glyph_idx_range[OF st2 assms(3,4)]
  have fle: "?f1 \<le> ?f2" using assms(2) lt by (rule current_glyph_float_mono)
  then have ile: "py_int ?f1 \<le> py_int ?f2" by (rule py_int_mono)
  then have nle: "?i1 \<le> ?i2" by simp
  have i1: "?i1 < length gs" using r1 by simp
  let ?A1 = "active_cmds style (total_len (gs ! ?i1) * (?f1 - real_of_int (py_int ?f1))) 0 (contours (gs ! ?i1))"
  let ?A2 = "active_cmds style (total_len (gs ! ?i2) * (?f2 - real_of_int (py_int ?f2))) 0 (contours (gs ! ?i2))"
  let ?L = "fill_glyphs (take ?i2 gs) @ ?A2"
  have a: "evolves (set (all_contours gs)) (fill_glyphs (take ?i1 gs)) ?L"
  proof (rule evolves_fills[OF fill_glyphs_are_fills])
    show "set (fill_glyphs (take ?i1 gs)) \<subseteq> set ?L"
      using fill_glyphs_take_subset[OF nle, of gs] by auto
  qed
  have "gs ! ?i1 \<in> set gs" using i1 by simp
  then have sub: "set (contours (gs ! ?i1)) \<subseteq> set (all_contours gs)"
    by (auto simp: all_contours_def)
  have b: "evolves (set (all_contours gs)) ?A1 ?L"
  proof (cases "?i1 = ?i2")
    case True
    then have eq: "py_int ?f1 = py_int ?f2" using r1 r2 by simp
    have "0 \<le> total_len (gs ! ?i1)" using assms(5) i1 by simp
    then have "total_len (gs ! ?i1) * (?f1 - real_of_int (py_int ?f1))
               \<le> total_len (gs ! ?i1) * (?f2 - real_of_int (py_int ?f1))"
      using fle by (intro mult_left_mono) auto
    then have "evolves (set (contours (gs ! ?i1))) ?A1
                 (active_cmds style (total_len (gs ! ?i1) * (?f2 - real_of_int (py_int ?f1))) 0 (contours (gs ! ?i1)))"
      by (rule active_evolves)
    then have "evolves (set (contours (gs ! ?i1))) ?A1 ?A2" using eq by simp
    then show ?thesis using sub by (rule evolves_mono) auto
  next
    case False
    then have "?i1 < ?i2" using nle by linarith
    then have "take ?i2 gs ! ?i1 = gs ! ?i1" "?i1 < length (take ?i2 gs)"
      using i1 by simp_all
    then have "gs ! ?i1 \<in> set (take ?i2 gs)"
      using nth_mem by metis
    then have "\<forall>c\<in>set (contours (gs ! ?i1)). DrawContoursFilled (pts c) \<in> set ?L"
      using fill_glyph_in_fill_glyphs by fastforce
    then have "evolves (set (contours (gs ! ?i1))) ?A1 ?L" by (rule active_evolves_full)
    then show ?thesis using sub by (rule evolves_mono) auto
  qed
  show ?thesis
    unfolding progressive_cmds_in_range[OF r1] progressive_cmds_in_range[OF r2]
    using a b by (rule evolves_append_left)
qed

lemma segment_evolves:
  assumes "t1 \<le> t2"
    and "\<forall>gs. glyph_sections (section_idx seg) = Some gs \<longrightarrow> (\<forall>g\<in>set gs. 0 \<le> total_len g)"
    and "\<forall>gs. glyph_sections (section_idx seg) = Some gs \<longrightarrow> set (all_contours gs) \<subseteq> C"
  shows "evolves C (segment_cmds style glyph_sections t1 seg) (segment_cmds style glyph_sections t2 seg)"
proof (cases "glyph_sections (section_idx seg)")
  case None
  then show ?thesis by (simp add: segment_cmds_def)
next
  case (Some gs)
  then have nn: "\<forall>g\<in>set gs. 0 \<le> total_len g" and C: "set (all_contours gs) \<subseteq> C"
    using assms by auto
  show ?thesis
  proof (cases "gs = [] \<or> t1 < seg_start seg")
    case True
    then have "segment_cmds style glyph_sections t1 seg = []" using Some by (auto simp: segment_cmds_def)
    then show ?thesis by simp
  next
    case False
    then have ne: "gs \<noteq> []" and s1: "seg_start seg \<le> t1" by auto
    then have s2: "seg_start seg \<le> t2" using assms(1) by simp
    show ?thesis
    proof (cases "seg_end seg \<le> t1")
      case True
      then have "segment_cmds style glyph_sections t1 seg = fill_glyphs gs"
        "segment_cmds style glyph_sections t2 seg = fill_glyphs gs"
        using Some ne s1 s2 assms(1) by (auto simp: segment_cmds_def)
      then show ?thesis using fill_glyphs_are_fills by (simp add: evolves_fills)
    next
      case False
      then have e1: "t1 < seg_end seg" by simp
      have c1: "segment_cmds style glyph_sections t1 seg = progressive_cmds style t1 seg gs"
        using Some ne s1 e1 by (simp add: segment_cmds_def)
      show ?thesis
      proof (cases "seg_end seg \<le> t2")
        case True
        then have "segment_cmds style glyph_sections t2 seg = fill_glyphs gs"
          using Some ne s2 by (auto simp: segment_cmds_def)
        then show ?thesis
          using evolves_mono[OF progressive_evolves_full[OF s1 e1 ne] C subset_refl] c1 by simp
      next
        case False
        then have e2: "t2 < seg_end seg" by simp
        have "segment_cmds style glyph_sections t2 seg = progressive_cmds style t2 seg gs"
          using Some ne s2 e2 by (simp add: segment_cmds_def)
        then show ?thesis
          using evolves_mono[OF progressive_evolves[OF s1 assms(1) e2 ne nn] C subset_refl] c1 by simp
      qed
    qed
  qed
qed

lemma evolves_concat:
  assumes "\<forall>x\<in>set xs. evolves C (f1 x) (f2 x)"
  shows "evolves C (concat (map f1 xs)) (concat (map f2 xs))"
  using assms unfolding evolves_def by fastforce

lemma frame_evolves:
  assumes "t1 \<le> t2"
    and "\<forall>i gs. env_glyph_sections env i = Some gs \<longrightarrow> (\<forall>g\<in>set gs. 0 \<le> total_len g)"
    and "reveal_cmds env t1 = Some cmds1"
  shows "\<exists>cmds2. reveal_cmds env t2 = Some cmds2 \<and> evolves (env_contours env) cmds1 cmds2"
proof -
  have c: "env_segments env \<noteq> [] \<and> segment_times (env_segments env) \<noteq> []"
    using assms(3) by (auto simp: reveal_cmds_def split: if_splits)
  have "\<forall>seg\<in>set (segment_times (env_segments env)).
          evolves (env_contours env)
            (segment_cmds (env_style env) (env_glyph_sections env) t1 seg)
            (segment_cmds (env_style env) (env_glyph_sections env) t2 seg)"
  proof
    fix seg
    show "evolves (env_contours env)
            (segment_cmds (env_style env) (env_glyph_sections env) t1 seg)
            (segment_cmds (env_style env) (env_glyph_sections env) t2 seg)"
      using assms(1)
    proof (rule segment_evolves)
      show "\<forall>gs. env_glyph_sections env (section_idx seg) = Some gs \<longrightarrow> (\<forall>g\<in>set gs. 0 \<le> total_len g)"
        using assms(2) by blast
      show "\<forall>gs. env_glyph_sections env (section_idx seg) = Some gs \<longrightarrow> set (all_contours gs) \<subseteq> env_contours env"
        by (auto simp: env_contours_def all_contours_def)
    qed
  qed
  then have "evolves (env_contours env)
               (concat (map (segment_cmds (env_style env) (env_glyph_sections env) t1) (segment_times (env_segments env))))
               (concat (map (segment_cmds (env_style env) (env_glyph_sections env) t2) (segment_times (env_segments env))))"
    by (rule evolves_concat)
  then show ?thesis using c assms(3) by (simp add: reveal_cmds_def)
qed

lemma reveal_cmds_None: "reveal_cmds env t1 = None \<Longrightarrow> reveal_cmds env t2 = None"
  by (simp add: reveal_cmds_def split: if_splits)

lemma fill_mask_revealed:
  assumes "t1 \<le> t2"
    and "\<forall>i gs. env_glyph_sections env i = Some gs \<longrightarrow> (\<forall>g\<in>set gs. 0 \<le> total_len g)"
    and "fill_mask raster env t1 p"
  shows "reveal_mask raster env t2 p"
proof (cases "reveal_cmds env t1")
  case None
  then show ?thesis using assms(3) reveal_cmds_None[OF None, of t2]
    by (simp add: fill_mask_def reveal_mask_def)
next
  case (Some cmds1)
  from frame_evolves[OF assms(1,2) Some] obtain cmds2 where
    c2: "reveal_cmds env t2 = Some cmds2" and ev: "evolves (env_contours env) cmds1 cmds2" by blast
  from assms(3) Some obtain cmd where cmd: "cmd \<in> set cmds1" "is_fill cmd" "raster cmd p" and oc: "on_canvas p"
    by (auto simp: fill_mask_def list_ex_iff)
  then have "cmd \<in> set cmds2" using ev unfolding evolves_def by (cases cmd) fastforce+
  then show ?thesis using c2 cmd oc by (auto simp: reveal_mask_def list_ex_iff)
qed

lemma reveal_mask_kept_or_spilled:
  assumes "t1 \<le> t2"
    and "\<forall>i gs. env_glyph_sections env i = Some gs \<longrightarrow> (\<forall>g\<in>set gs. 0 \<le> total_len g)"
    and "prefix_monotone raster"
    and "reveal_mask raster env t1 p"
  shows "reveal_mask raster env t2 p \<or> stroke_spill raster env t1 p"
proof (cases "reveal_cmds env t1")
  case None
  then show ?thesis using assms(4) reveal_cmds_None[OF None, of t2]
    by (simp add: reveal_mask_def)
next
  case (Some cmds1)
  from frame_evolves[OF assms(1,2) Some] obtain cmds2 where
    c2: "reveal_cmds env t2 = Some cmds2" and ev: "evolves (env_contours env) cmds1 cmds2" by blast
  from assms(4) Some obtain cmd where cmd: "cmd \<in> set cmds1" "raster cmd p" and oc: "on_canvas p"
    by (auto simp: reveal_mask_def list_ex_iff)
  from ev cmd(1) consider
    (kept) "is_fill cmd" "cmd \<in> set cmds2"
    | (stroke) c n th where "c \<in> env_contours env" "cmd = Polylines (take n (pts c)) th"
        "DrawContoursFilled (pts c) \<in> set cmds2 \<or> (\<exists>m\<ge>n. Polylines (take m (pts c)) th \<in> set cmds2)"
    unfolding evolves_def by blast
  then show ?thesis
  proof cases
    case kept
    then show ?thesis using c2 cmd oc by (auto simp: reveal_mask_def list_ex_iff)
  next
    case stroke
    show ?thesis
    proof (cases "\<exists>m\<ge>n. Polylines (take m (pts c)) th \<in> set cmds2")
      case True
      then obtain m where m: "n \<le> m" "Polylines (take m (pts c)) th \<in> set cmds2" by blast
      have "raster (Polylines (take m (pts c)) th) p"
        using assms(3) m(1) cmd(2) stroke(2) unfolding prefix_monotone_def by blast
      then show ?thesis using c2 m(2) oc by (auto simp: reveal_mask_def list_ex_iff)
    next
      case False
      then have f: "DrawContoursFilled (pts c) \<in> set cmds2" using stroke(3) by blast
      show ?thesis
      proof (cases "raster (DrawContoursFilled (pts c)) p")
        case True
        then show ?thesis using c2 f oc by (auto simp: reveal_mask_def list_ex_iff)
      next
        case False
        then have "stroke_spill raster env t1 p"
          using Some stroke(1,2) cmd by (auto simp: stroke_spill_def)
        then show ?thesis by simp
      qed
    qed
  qed
qed

lemma on_polyline_prefix: "on_polyline (take n ps) th p \<Longrightarrow> on_polyline ps th p"
proof (induction ps arbitrary: n)
  case Nil
  then show ?case by simp
next
  case (Cons a ps)
  show ?case
  proof (cases n)
    case 0
    then show ?thesis using Cons.prems by simp
  next
    case (Suc k)
    note n = Suc
    show ?thesis
    proof (cases ps)
      case Nil
      then show ?thesis using Cons.prems n by simp
    next
      case (Cons b rest)
      note ps = Cons
      show ?thesis
      proof (cases k)
        case 0
        then show ?thesis using Cons.prems n ps by simp
      next
        case (Suc j)
        have "take n (a # ps) = a # b # take j rest" using n ps Suc by simp
        then have "4 * seg_dist2 a b p \<le> real th * real th \<or> on_polyline (take (Suc j) ps) th p"
          using Cons.prems ps by simp
        then have "4 * seg_dist2 a b p \<le> real th * real th \<or> on_polyline ps th p"
          using Cons.IH[of "Suc j"] by blast
        then show ?thesis using ps by simp
      qed
    qed
  qed
qed

lemma cv_raster_prefix_monotone: "prefix_monotone cv_raster"
  unfolding prefix_monotone_def
proof (intro allI impI)
  fix ps :: "point list" and n m th p
  assume a: "n \<le> m \<and> cv_raster (Polylines (take n ps) th) p"
  then have "take n (take m ps) = take n ps" by (simp add: min_def)
  then have "on_polyline (take n (take m ps)) th p" using a by simp
  then have "on_polyline (take m ps) th p" by (rule on_polyline_prefix)
  then show "cv_raster (Polylines (take m ps) th) p" by simp
qed


lemma example_cmds_1: "reveal_cmds example_env 1 = Some [Polylines [(100, 100), (119, 100)] 15]"
  by (simp add: reveal_cmds_def example_env_def segment_times_def segment_cmds_def
      progressive_cmds_def current_glyph_float_def py_int_def letter_at_def thickness_def Let_def)

lemma example_cmds_2: "reveal_cmds example_env 2
   = Some [DrawContoursFilled [(100, 100), (119, 100), (119, 139), (100, 139)]]"
  by (simp add: reveal_cmds_def example_env_def segment_times_def segment_cmds_def
      fill_glyphs_def fill_glyph_def letter_at_def Let_def)

lemma example_stroke_pixel: "reveal_mask cv_raster example_env 1 (110, 95)"
  by (simp add: reveal_mask_def example_cmds_1 on_canvas_def WIDTH_def HEIGHT_def seg_dist2_def Let_def)

lemma example_pixel_gone: "\<not> reveal_mask cv_raster example_env 2 (110, 95)"
  by (simp add: reveal_mask_def example_cmds_2 on_canvas_def WIDTH_def HEIGHT_def seg_dist2_def Let_def
       in_polygon_def polygon_edges_def crosses_def)

lemma example_inner_pixel: "reveal_mask cv_raster example_env 2 (110, 105)"
  by (simp add: reveal_mask_def example_cmds_2 on_canvas_def WIDTH_def HEIGHT_def seg_dist2_def Let_def
       in_polygon_def polygon_edges_def crosses_def)

lemma example_env_generated:
  "generate_env ''normal'' [\<lparr>position = Some 0, duration = Some 2, bbox = None\<rparr>]
         example_gray example_ink example_original 1920 1080 [letter_at 1 100]
       = Inr example_env"
  using example_gray_light
  by (simp add: generate_env_def build_glyph_sections_def glyph_section_idx_def section_width_def
      num_sections_def py_int_def process_sections_def safely_merge_words_def
      sort_contours_by_path_v8_def cluster_lines_def place_glyph_def order_lines_def
      example_env_def get_cleaned_image_def
      v8_consts_def letter_at_def WIDTH_def HEIGHT_def Let_def fun_eq_iff)


text \<open>
  Claim C1, as the specification states it, fails on the example clip: at \<open>t = 1\<close> the
  15 pixel wide polyline along the top edge of the rectangle covers the pixel (110, 95),
  five pixels above the rectangle; at \<open>t = 2\<close> the polyline has been replaced by the
  filled rectangle, which does not contain that pixel.
\<close>

theorem thick_stroke_pixel_disappears:
  "generate_env ''normal'' [\<lparr>position = Some 0, duration = Some 2, bbox = None\<rparr>]
         example_gray example_ink example_original 1920 1080 [letter_at 1 100]
     = Inr example_env
   \<and> reveal_cmds example_env 1 = Some [Polylines [(100, 100), (119, 100)] 15]
   \<and> reveal_cmds example_env 2 = Some [DrawContoursFilled [(100, 100), (119, 100), (119, 139), (100, 139)]]
   \<and> reveal_mask cv_raster example_env 1 (110, 95)
   \<and> \<not> reveal_mask cv_raster example_env 2 (110, 95)"
  using example_env_generated example_cmds_1 example_cmds_2 example_stroke_pixel example_pixel_gone
  by blast

text \<open>
  Claim C1, amended. For every two query times \<open>t1 \<le> t2\<close>, under a fixed image and
  configuration whose units have non-negative stroke lengths, and for every rasterizer
  under which a polyline covers what a polyline along fewer of its points covers: every
  pixel that is in the reveal mask at \<open>t1\<close> because of a filled contour is in the mask at
  \<open>t2\<close>; and every pixel of the mask at \<open>t1\<close> is in the mask at \<open>t2\<close>, unless at \<open>t1\<close> it was
  painted by the partial polyline of a contour and lies outside the filled region of that
  contour. So filled contours never disappear, and only the part of a thick partial
  polyline that reaches beyond its own contour can.
\<close>

theorem reveal_monotone_except_stroke_spill:
  assumes "t1 \<le> t2"
    and "\<forall>i gs. env_glyph_sections env i = Some gs \<longrightarrow> (\<forall>g\<in>set gs. 0 \<le> total_len g)"
    and "prefix_monotone raster"
  shows "(fill_mask raster env t1 p \<longrightarrow> reveal_mask raster env t2 p)
       \<and> (reveal_mask raster env t1 p \<longrightarrow> reveal_mask raster env t2 p \<or> stroke_spill raster env t1 p)"
  using fill_mask_revealed[OF assms(1,2)] reveal_mask_kept_or_spilled[OF assms] by blast

theorem reveal_monotone_except_stroke_spill_witness:
  "stroke_spill cv_raster example_env 1 (110, 95)
   \<and> reveal_mask cv_raster example_env 2 (110, 105)"
proof -
  have h: "(1::real) \<le> 2"
    "\<forall>i gs. env_glyph_sections example_env i = Some gs \<longrightarrow> (\<forall>g\<in>set gs. 0 \<le> total_len g)"
    by (simp_all add: example_env_def letter_at_def)
  have "reveal_mask cv_raster example_env 1 (110, 95) \<longrightarrow>
          reveal_mask cv_raster example_env 2 (110, 95) \<or> stroke_spill cv_raster example_env 1 (110, 95)"
    using reveal_monotone_except_stroke_spill[OF h cv_raster_prefix_monotone, of "(110, 95)"] by blast
  then show ?thesis
    using example_stroke_pixel example_pixel_gone example_inner_pixel by blast
qed

section \<open>The degenerate clip: no ink\<close>

lemma concat_map_Nil: "concat (map (\<lambda>x. []) xs) = []"
  by (induction xs) simp_all

lemma process_sections_empty: "process_sections Map.empty = Map.empty"
  by (simp add: process_sections_def)

lemma no_glyphs_env:
  "generate_env style segs gray ink_map original_resized new_w new_h [] =
     Inr \<lparr>env_is_dark_bg = is_dark_bg gray, env_style = style, env_segments = segs,
          env_glyph_sections = Map.empty,
          env_full_canvas_ref =
            full_canvas_ref (is_dark_bg gray) ((WIDTH - new_w) div 2) ((HEIGHT - new_h) div 2)
              new_w new_h ink_map original_resized\<rparr>"
  by (simp add: generate_env_def build_glyph_sections_def process_sections_empty
                get_cleaned_image_def Let_def)

lemma reverse_blank: "reverse_channels (blank_canvas dark p) = blank_canvas dark p"
  by (simp add: reverse_channels_def blank_canvas_def)

lemma no_ink_canvas:
  assumes "\<forall>q. ink_map q = 0"
  shows "full_canvas_ref dark x_offset y_offset new_w new_h ink_map original_resized p = blank_canvas dark p"
  using assms by (simp add: full_canvas_ref_def Let_def)

lemma no_glyphs_frame:
  assumes "\<forall>q. ink_map q = 0"
    and "env = \<lparr>env_is_dark_bg = dark, env_style = style, env_segments = segs,
                 env_glyph_sections = Map.empty,
                 env_full_canvas_ref =
                   full_canvas_ref dark x_offset y_offset new_w new_h ink_map original_resized\<rparr>"
  shows "make_frame raster env t p = blank_canvas dark p"
proof -
  have c: "env_full_canvas_ref env p = blank_canvas dark p"
    using no_ink_canvas[OF assms(1)] by (simp add: assms(2))
  have "make_frame raster env t p = reverse_channels (blank_canvas dark p)"
    using c by (simp add: make_frame_def assms(2))
  then show ?thesis by (simp add: reverse_blank)
qed

lemma v5_cutoff_empty_range: "v5_cutoff cum target_len left left = left"
  by (subst v5_cutoff.simps) simp

lemma no_glyphs_v5_env:
  "v5_generate_env arc_length segs clip_duration dark ink_map original_resized new_w new_h [] =
     Inr \<lparr>v5_is_dark_bg = dark, v5_segments = segs, v5_glyph_sections = Map.empty,
          v5_all_contours = [], v5_total_perimeter = 0, v5_cumulative_perimeters = [],
          v5_cache_interval = 1, v5_cached_masks = [0 \<mapsto> []],
          v5_drawing_time = min 5.0 (clip_duration * 0.4),
          v5_full_canvas_ref =
            full_canvas_ref dark ((WIDTH - new_w) div 2) ((HEIGHT - new_h) div 2)
              new_w new_h ink_map original_resized\<rparr>"
  by (simp add: v5_generate_env_def cluster_into_grid_rows_def build_cached_masks_def
                cache_step_def Let_def)

lemma no_glyphs_v5_cmds:
  assumes "env = \<lparr>v5_is_dark_bg = dark, v5_segments = segs, v5_glyph_sections = Map.empty,
          v5_all_contours = [], v5_total_perimeter = 0, v5_cumulative_perimeters = [],
          v5_cache_interval = 1, v5_cached_masks = [0 \<mapsto> []],
          v5_drawing_time = dt, v5_full_canvas_ref = canvas\<rparr>"
  shows "v5_reveal_cmds env t = []"
proof -
  have "v5_linear_cmds env t = []"
    by (simp add: v5_linear_cmds_def assms v5_cutoff_empty_range Let_def)
  moreover have "concat (map (v5_segment_cmds (v5_glyph_sections env) t) xs) = []" for xs
    by (simp add: assms v5_segment_cmds_def concat_map_Nil)
  ultimately show ?thesis by (simp add: v5_reveal_cmds_def)
qed

text \<open>
  Claim C4. For an input whose ink map has no foreground pixel, hence no detected glyph,
  the pipeline does not fail and divides nowhere by zero, for any list of segments and any
  resized width: the V8 engine builds its closure, and every frame, at every query time
  and for every rasterizer, is the solid background colour, white for a light background.
  The same holds for the V5 engine, whose total perimeter is then 0 and whose linear reveal
  draws nothing.
\<close>

theorem no_ink_gives_static_background:
  assumes "\<forall>q. ink_map q = 0"
  shows "(\<exists>env. generate_env style segs gray ink_map original_resized new_w new_h [] = Inr env
            \<and> (\<forall>raster t p. make_frame raster env t p = blank_canvas (is_dark_bg gray) p)
            \<and> (\<not> is_dark_bg gray \<longrightarrow> (\<forall>raster t p. make_frame raster env t p = (255, 255, 255))))
       \<and> (\<exists>env5. v5_generate_env arc_length segs clip_duration dark ink_map original_resized new_w new_h []
                    = Inr env5
            \<and> v5_total_perimeter env5 = 0
            \<and> (\<forall>t. v5_reveal_cmds env5 t = [])
            \<and> (\<forall>raster t p. v5_make_frame raster env5 t p = blank_canvas dark p)
            \<and> (\<not> dark \<longrightarrow> (\<forall>raster t p. v5_make_frame raster env5 t p = (255, 255, 255))))"
proof (rule conjI)
  define env where "env = \<lparr>env_is_dark_bg = is_dark_bg gray, env_style = style, env_segments = segs,
          env_glyph_sections = Map.empty,
          env_full_canvas_ref =
            full_canvas_ref (is_dark_bg gray) ((WIDTH - new_w) div 2) ((HEIGHT - new_h) div 2)
              new_w new_h ink_map original_resized\<rparr>"
  have g: "generate_env style segs gray ink_map original_resized new_w new_h [] = Inr env"
    unfolding env_def by (rule no_glyphs_env)
  have f: "make_frame raster env t p = blank_canvas (is_dark_bg gray) p" for raster t p
    using assms env_def by (rule no_glyphs_frame)
  have w: "make_frame raster env t p = (255, 255, 255)" if "\<not> is_dark_bg gray" for raster t p
    using that by (simp add: f blank_canvas_def)
  show "\<exists>env. generate_env style segs gray ink_map original_resized new_w new_h [] = Inr env
            \<and> (\<forall>raster t p. make_frame raster env t p = blank_canvas (is_dark_bg gray) p)
            \<and> (\<not> is_dark_bg gray \<longrightarrow> (\<forall>raster t p. make_frame raster env t p = (255, 255, 255)))"
    using g f w by (intro exI[of _ env]) simp
next
  define env5 where "env5 = \<lparr>v5_is_dark_bg = dark, v5_segments = segs, v5_glyph_sections = Map.empty,
          v5_all_contours = [], v5_total_perimeter = 0, v5_cumulative_perimeters = [],
          v5_cache_interval = 1, v5_cached_masks = [0 \<mapsto> []],
          v5_drawing_time = min 5.0 (clip_duration * 0.4),
          v5_full_canvas_ref =
            full_canvas_ref dark ((WIDTH - new_w) div 2) ((HEIGHT - new_h) div 2)
              new_w new_h ink_map original_resized\<rparr>"
  have g: "v5_generate_env arc_length segs clip_duration dark ink_map original_resized new_w new_h [] = Inr env5"
    unfolding env5_def by (rule no_glyphs_v5_env)
  have c: "v5_reveal_cmds env5 t = []" for t
    using env5_def by (rule no_glyphs_v5_cmds)
  have d: "v5_is_dark_bg env5 = dark" and z: "v5_total_perimeter env5 = 0"
    by (simp_all add: env5_def)
  have f: "v5_make_frame raster env5 t p = blank_canvas dark p" for raster t p
    by (simp add: v5_make_frame_def c d reverse_blank)
  have w: "v5_make_frame raster env5 t p = (255, 255, 255)" if "\<not> dark" for raster t p
    using that by (simp add: f blank_canvas_def)
  show "\<exists>env5. v5_generate_env arc_length segs clip_duration dark ink_map original_resized new_w new_h []
                    = Inr env5
            \<and> v5_total_perimeter env5 = 0
            \<and> (\<forall>t. v5_reveal_cmds env5 t = [])
            \<and> (\<forall>raster t p. v5_make_frame raster env5 t p = blank_canvas dark p)
            \<and> (\<not> dark \<longrightarrow> (\<forall>raster t p. v5_make_frame raster env5 t p = (255, 255, 255)))"
    using g c z f w by (intro exI[of _ env5]) simp
qed

theorem no_ink_gives_static_background_witness:
  "(\<exists>env. generate_env ''normal'' two_segments (uniform_gray 1080 1080 255) (\<lambda>q. 0) (\<lambda>q. (255, 255, 255)) 1080 1080 []
             = Inr env
          \<and> make_frame cv_raster env 1 (50, 50) = (255, 255, 255))
   \<and> (\<exists>env5. v5_generate_env (\<lambda>cnt. 0) [] 5 False (\<lambda>q. 0) (\<lambda>q. (255, 255, 255)) 1080 1080 [] = Inr env5
          \<and> v5_make_frame cv_raster env5 1 (50, 50) = (255, 255, 255))"
proof -
  have h: "\<forall>q::point. (0::8 word) = 0" by simp
  have l: "\<not> is_dark_bg (uniform_gray 1080 1080 255)"
    by (rule uniform_light)
  note inst = no_ink_gives_static_background
            [where ink_map = "\<lambda>q. 0" and style = "''normal''" and segs = two_segments
               and gray = "uniform_gray 1080 1080 255"
               and original_resized = "\<lambda>q. (255, 255, 255)" and new_w = 1080 and new_h = 1080
               and arc_length = "\<lambda>cnt. 0" and clip_duration = 5 and dark = False, OF h]
  note inst5 = no_ink_gives_static_background
            [where ink_map = "\<lambda>q. 0" and segs = "[]"
               and original_resized = "\<lambda>q. (255, 255, 255)" and new_w = 1080 and new_h = 1080
               and arc_length = "\<lambda>cnt. 0" and clip_duration = 5 and dark = False, OF h]
  from inst l obtain env where
    "generate_env ''normal'' two_segments (uniform_gray 1080 1080 255) (\<lambda>q. 0) (\<lambda>q. (255, 255, 255)) 1080 1080 [] = Inr env"
    "\<forall>raster t p. make_frame raster env t p = (255, 255, 255)"
    by blast
  then have a: "\<exists>env. generate_env ''normal'' two_segments (uniform_gray 1080 1080 255) (\<lambda>q. 0) (\<lambda>q. (255, 255, 255)) 1080 1080 []
             = Inr env \<and> make_frame cv_raster env 1 (50, 50) = (255, 255, 255)"
    by blast
  from inst5 obtain env5 where
    "v5_generate_env (\<lambda>cnt. 0) [] 5 False (\<lambda>q. 0) (\<lambda>q. (255, 255, 255)) 1080 1080 [] = Inr env5"
    "\<forall>raster t p. v5_make_frame raster env5 t p = (255, 255, 255)"
    by blast
  then have "\<exists>env5. v5_generate_env (\<lambda>cnt. 0) [] 5 False (\<lambda>q. 0) (\<lambda>q. (255, 255, 255)) 1080 1080 [] = Inr env5
          \<and> v5_make_frame cv_raster env5 1 (50, 50) = (255, 255, 255)"
    by blast
  with a show ?thesis by blast
qed

section \<open>Properties of the bounding-box assignment (V6)\<close>

lemma set_valid_metas: "set (valid_metas metas) = {m. Some m \<in> set metas}"
  by (force simp: valid_metas_def image_iff)

lemma container_scan_Some:
  "container_scan gx gy ms best = Some (i, a) \<Longrightarrow>
     (best = Some (i, a) \<or> (\<exists>m. Some m \<in> set ms \<and> inside gx gy m \<and> meta_idx m = i \<and> meta_area m = a))
     \<and> (\<forall>m. Some m \<in> set ms \<and> inside gx gy m \<longrightarrow> a \<le> meta_area m)
     \<and> (\<forall>j b. best = Some (j, b) \<longrightarrow> a \<le> b)"
proof (induction gx gy ms best rule: container_scan.induct)
  case (1 gx gy best)
  then show ?case by simp
next
  case (2 gx gy rest best)
  then show ?case by simp
next
  case (3 gx gy meta rest best)
  show ?case
  proof (cases "inside gx gy meta \<and> (case best of None \<Rightarrow> True | Some (_, min_container_area) \<Rightarrow> meta_area meta < min_container_area)")
    case True
    then have "container_scan gx gy rest (Some (meta_idx meta, meta_area meta)) = Some (i, a)"
      using "3.prems" by simp
    from "3.IH"(1)[OF True this] True show ?thesis
      by (auto split: option.splits)
  next
    case False
    then have "container_scan gx gy rest best = Some (i, a)"
      using "3.prems" by auto
    from "3.IH"(2)[OF False this] False show ?thesis
      by (auto split: option.splits)
  qed
qed

lemma container_scan_None:
  "container_scan gx gy ms best = None \<Longrightarrow>
     best = None \<and> (\<forall>m. Some m \<in> set ms \<longrightarrow> \<not> inside gx gy m)"
proof (induction gx gy ms best rule: container_scan.induct)
  case (1 gx gy best)
  then show ?case by simp
next
  case (2 gx gy rest best)
  then show ?case by simp
next
  case (3 gx gy meta rest best)
  show ?case
  proof (cases "inside gx gy meta \<and> (case best of None \<Rightarrow> True | Some (_, min_container_area) \<Rightarrow> meta_area meta < min_container_area)")
    case True
    then have "container_scan gx gy rest (Some (meta_idx meta, meta_area meta)) = None"
      using "3.prems" by simp
    from "3.IH"(1)[OF True this] show ?thesis by simp
  next
    case False
    then have "container_scan gx gy rest best = None"
      using "3.prems" by auto
    from "3.IH"(2)[OF False this] False show ?thesis by auto
  qed
qed

lemma nearest_scan_Some:
  "(nearest_scan gx gy ms b (Some d) = b \<and> (\<forall>m'\<in>set ms. d \<le> centre_dist gx gy m'))
   \<or> (\<exists>m\<in>set ms. meta_idx m = nearest_scan gx gy ms b (Some d) \<and> centre_dist gx gy m < d
         \<and> (\<forall>m'\<in>set ms. centre_dist gx gy m \<le> centre_dist gx gy m'))"
proof (induction ms arbitrary: b d)
  case Nil
  then show ?case by simp
next
  case (Cons m ms)
  show ?case
  proof (cases "centre_dist gx gy m < d")
    case True
    then have e: "nearest_scan gx gy (m # ms) b (Some d)
                  = nearest_scan gx gy ms (meta_idx m) (Some (centre_dist gx gy m))"
      by (simp add: Let_def)
    from Cons[of "meta_idx m" "centre_dist gx gy m"] True show ?thesis
      unfolding e by (elim disjE) force+
  next
    case False
    then have e: "nearest_scan gx gy (m # ms) b (Some d) = nearest_scan gx gy ms b (Some d)"
      by (simp add: Let_def)
    from Cons[of b d] False show ?thesis
      unfolding e by (elim disjE) force+
  qed
qed

lemma nearest_scan_None:
  assumes "ms \<noteq> []"
  shows "\<exists>m\<in>set ms. meta_idx m = nearest_scan gx gy ms b None
           \<and> (\<forall>m'\<in>set ms. centre_dist gx gy m \<le> centre_dist gx gy m')"
proof -
  obtain m rest where ms: "ms = m # rest" using assms by (cases ms) auto
  have e: "nearest_scan gx gy ms b None = nearest_scan gx gy rest (meta_idx m) (Some (centre_dist gx gy m))"
    by (simp add: ms Let_def)
  from nearest_scan_Some[of gx gy rest "meta_idx m" "centre_dist gx gy m"]
  show ?thesis unfolding e ms by (elim disjE) force+
qed


lemma section_list_upd:
  "section_list (d(k \<mapsto> l)) i = (if i = k then l else section_list d i)"
  by (simp add: section_list_def)

lemma first_pass_ok:
  assumes "dom sg = {i. i < n}" and "\<forall>m. Some m \<in> set metas \<longrightarrow> meta_idx m < n"
  shows "\<exists>sg' un'. first_pass metas sg un gs = Inr (sg', un')
           \<and> dom sg' = {i. i < n}
           \<and> un' = un @ filter (\<lambda>g. container_scan (glyph_gx g) (glyph_gy g) metas None = None) gs
           \<and> (\<forall>i. section_list sg' i
                  = section_list sg i
                    @ filter (\<lambda>g. \<exists>a. container_scan (glyph_gx g) (glyph_gy g) metas None = Some (i, a)) gs)"
  using assms(1)
proof (induction gs arbitrary: sg un)
  case Nil
  then show ?case by simp
next
  case (Cons g gs)
  show ?case
  proof (cases "container_scan (glyph_gx g) (glyph_gy g) metas None")
    case None
    from Cons.IH[OF Cons.prems, of "un @ [g]"] None show ?thesis by auto
  next
    case (Some r)
    obtain k a where r: "r = (k, a)" by (cases r) auto
    from container_scan_Some[OF Some[unfolded r]] obtain m where
      "Some m \<in> set metas" "meta_idx m = k" by auto
    then have "k < n" using assms(2) by auto
    then obtain l where l: "sg k = Some l" using Cons.prems by blast
    let ?sg = "sg(k \<mapsto> l @ [g])"
    have d: "dom ?sg = {i. i < n}" using Cons.prems \<open>k < n\<close> by auto
    from Cons.IH[OF d, of un] obtain sg' un' where
      f: "first_pass metas ?sg un gs = Inr (sg', un')"
      and d': "dom sg' = {i. i < n}"
      and u: "un' = un @ filter (\<lambda>g. container_scan (glyph_gx g) (glyph_gy g) metas None = None) gs"
      and s: "\<forall>i. section_list sg' i
                  = section_list ?sg i
                    @ filter (\<lambda>g. \<exists>a. container_scan (glyph_gx g) (glyph_gy g) metas None = Some (i, a)) gs"
      by blast
    have "first_pass metas sg un (g # gs) = Inr (sg', un')"
      using Some r l f by (simp add: dict_append_def)
    moreover have "un' = un @ filter (\<lambda>g. container_scan (glyph_gx g) (glyph_gy g) metas None = None) (g # gs)"
      using u Some by simp
    moreover have "\<forall>i. section_list sg' i
                  = section_list sg i
                    @ filter (\<lambda>g. \<exists>a. container_scan (glyph_gx g) (glyph_gy g) metas None = Some (i, a)) (g # gs)"
      using s Some r l by (auto simp: section_list_upd section_list_def)
    ultimately show ?thesis using d' by blast
  qed
qed

lemma fallback_idx_valid:
  assumes "\<forall>m. Some m \<in> set metas \<longrightarrow> meta_idx m < n" and "0 < n"
  shows "fallback_idx metas g < n"
proof (cases "valid_metas metas = []")
  case True
  then show ?thesis using assms(2) by (simp add: fallback_idx_def)
next
  case False
  from nearest_scan_None[OF False, of "glyph_gx g" "glyph_gy g" 0] obtain m where
    "m \<in> set (valid_metas metas)"
    "meta_idx m = nearest_scan (glyph_gx g) (glyph_gy g) (valid_metas metas) 0 None" by blast
  then show ?thesis using assms(1) False by (auto simp: fallback_idx_def set_valid_metas)
qed

lemma second_pass_step:
  "second_pass metas sg (g # rest) =
     (case dict_append sg (fallback_idx metas g) g of
        Inl e \<Rightarrow> Inl e
      | Inr sg' \<Rightarrow> second_pass metas sg' rest)"
  by (simp add: fallback_idx_def valid_metas_def Let_def)

lemma second_pass_ok:
  assumes "dom sg = {i. i < n}" and "\<forall>m. Some m \<in> set metas \<longrightarrow> meta_idx m < n" and "0 < n"
  shows "\<exists>sg'. second_pass metas sg gs = Inr sg'
           \<and> dom sg' = {i. i < n}
           \<and> (\<forall>i. section_list sg' i = section_list sg i @ filter (\<lambda>g. fallback_idx metas g = i) gs)"
  using assms(1)
proof (induction gs arbitrary: sg)
  case Nil
  then show ?case by simp
next
  case (Cons g gs)
  let ?k = "fallback_idx metas g"
  have k: "?k < n" using assms(2,3) by (rule fallback_idx_valid)
  then obtain l where l: "sg ?k = Some l" using Cons.prems by blast
  let ?sg = "sg(?k \<mapsto> l @ [g])"
  have d: "dom ?sg = {i. i < n}" using Cons.prems k by auto
  from Cons.IH[OF d] obtain sg' where
    f: "second_pass metas ?sg gs = Inr sg'"
    and d': "dom sg' = {i. i < n}"
    and s: "\<forall>i. section_list sg' i = section_list ?sg i @ filter (\<lambda>g. fallback_idx metas g = i) gs"
    by blast
  have "second_pass metas sg (g # gs) = Inr sg'"
    using l f by (simp add: second_pass_step dict_append_def del: second_pass.simps)
  moreover have "\<forall>i. section_list sg' i = section_list sg i @ filter (\<lambda>g. fallback_idx metas g = i) (g # gs)"
    using s l by (auto simp: section_list_upd section_list_def)
  ultimately show ?case using d' by blast
qed

lemma seg_meta_of_idx: "seg_meta_of width height i seg = Inr (Some m) \<Longrightarrow> meta_idx m = i"
  by (auto simp: seg_meta_of_def split: option.splits sum.splits if_splits)

lemma seg_meta_loop_idx:
  "seg_meta_loop width height i segs = Inr metas \<Longrightarrow> Some m \<in> set metas \<Longrightarrow>
     meta_idx m < i + length segs"
proof (induction segs arbitrary: i metas)
  case Nil
  then show ?case by simp
next
  case (Cons seg rest)
  from Cons.prems(1) obtain meta ms where
    h: "seg_meta_of width height i seg = Inr meta"
    and r: "seg_meta_loop width height (Suc i) rest = Inr ms"
    and m: "metas = meta # ms"
    by (auto split: sum.splits)
  show ?case
  proof (cases "Some m = meta")
    case True
    then have "meta_idx m = i" using h seg_meta_of_idx by metis
    then show ?thesis by simp
  next
    case False
    then have "Some m \<in> set ms" using Cons.prems(2) m by auto
    from Cons.IH[OF r this] show ?thesis by simp
  qed
qed

lemma seg_metas_idx:
  assumes "seg_metas width height segs = Inr metas" and "Some m \<in> set metas"
  shows "meta_idx m < length segs"
  using seg_meta_loop_idx[of width height 0 segs metas m] assms by (simp add: seg_metas_def)

lemma mset_filter_disjoint:
  assumes "\<forall>x\<in>set xs. \<not> (P x \<and> Q x)"
  shows "mset (filter P xs) + mset (filter Q xs) = mset (filter (\<lambda>x. P x \<or> Q x) xs)"
  using assms by (induction xs) auto

lemma assigned_segment_cases:
  "assigned_segment metas g = i \<longleftrightarrow>
     (\<exists>a. container_scan (glyph_gx g) (glyph_gy g) metas None = Some (i, a))
     \<or> (container_scan (glyph_gx g) (glyph_gy g) metas None = None \<and> fallback_idx metas g = i)"
  by (auto simp: assigned_segment_def fallback_idx_def split: option.splits)

lemma init_bins_list: "section_list (init_bins n) i = []"
  by (simp add: section_list_def init_bins_def)

lemma assign_glyphs_bins:
  fixes glyphs :: "'a glyph_box_scheme list"
  assumes "segs \<noteq> []" and "\<forall>m. Some m \<in> set metas \<longrightarrow> meta_idx m < length segs"
  shows "\<exists>bins. assign_glyphs metas segs glyphs = Inr bins
           \<and> dom bins = {i. i < length segs}
           \<and> (\<forall>i. mset (section_list bins i)
                  = mset (filter (\<lambda>g. assigned_segment metas g = i) glyphs))"
proof -
  let ?n = "length segs"
  let ?C = "\<lambda>i g. \<exists>a. container_scan (glyph_gx g) (glyph_gy g) metas None = Some (i, a)"
  let ?N = "\<lambda>g. container_scan (glyph_gx g) (glyph_gy g) metas None = None"
  have n: "0 < ?n" using assms(1) by simp
  have d0: "dom (init_bins ?n :: nat \<rightharpoonup> 'a glyph_box_scheme list) = {i. i < ?n}"
    by (auto simp: init_bins_def split: if_splits)
  from first_pass_ok[OF d0 assms(2), of "[]" glyphs] obtain sg un where
    f: "first_pass metas (init_bins ?n) [] glyphs = Inr (sg, un)"
    and d1: "dom sg = {i. i < ?n}"
    and u: "un = filter ?N glyphs"
    and s1: "\<forall>i. section_list sg i = filter (?C i) glyphs"
    by (auto simp: init_bins_list)
  from second_pass_ok[OF d1 assms(2) n, of un] obtain sg2 where
    f2: "second_pass metas sg un = Inr sg2"
    and d2: "dom sg2 = {i. i < ?n}"
    and s2: "\<forall>i. section_list sg2 i = section_list sg i @ filter (\<lambda>g. fallback_idx metas g = i) un"
    by blast
  define bins where "bins = (if un \<noteq> [] then sg2 else sg)"
  have c: "assign_glyphs metas segs glyphs = Inr bins"
    using assms(1) f f2 by (simp add: assign_glyphs_def bins_def)
  have d: "dom bins = {i. i < ?n}" using d1 d2 by (simp add: bins_def)
  have l: "section_list bins i = filter (?C i) glyphs @ filter (\<lambda>g. fallback_idx metas g = i) un" for i
    using s1 s2 by (simp add: bins_def)
  have "mset (section_list bins i) = mset (filter (\<lambda>g. assigned_segment metas g = i) glyphs)" for i
  proof -
    have "mset (section_list bins i)
          = mset (filter (?C i) glyphs) + mset (filter (\<lambda>g. ?N g \<and> fallback_idx metas g = i) glyphs)"
      by (simp add: l u conj_commute)
    also have "\<dots> = mset (filter (\<lambda>g. ?C i g \<or> (?N g \<and> fallback_idx metas g = i)) glyphs)"
      by (rule mset_filter_disjoint) auto
    also have "\<dots> = mset (filter (\<lambda>g. assigned_segment metas g = i) glyphs)"
      by (simp add: assigned_segment_cases)
    finally show ?thesis .
  qed
  with c d show ?thesis by blast
qed

lemma assigned_segment_valid:
  assumes "segs \<noteq> []" and "\<forall>m. Some m \<in> set metas \<longrightarrow> meta_idx m < length segs"
  shows "assigned_segment metas g < length segs"
proof (cases "container_scan (glyph_gx g) (glyph_gy g) metas None")
  case None
  have "fallback_idx metas g < length segs"
    using assms by (intro fallback_idx_valid) auto
  then show ?thesis using None by (simp add: assigned_segment_def fallback_idx_def)
next
  case (Some r)
  obtain k a where r: "r = (k, a)" by (cases r) auto
  from container_scan_Some[OF Some[unfolded r]] obtain m where
    "Some m \<in> set metas" "meta_idx m = k" by auto
  then show ?thesis using assms(2) Some r by (auto simp: assigned_segment_def)
qed

lemma assigned_smallest_container:
  assumes "Some m0 \<in> set metas" "inside (glyph_gx g) (glyph_gy g) m0"
  shows "\<exists>m. Some m \<in> set metas \<and> inside (glyph_gx g) (glyph_gy g) m
            \<and> meta_idx m = assigned_segment metas g
            \<and> (\<forall>m'. Some m' \<in> set metas \<and> inside (glyph_gx g) (glyph_gy g) m' \<longrightarrow> meta_area m \<le> meta_area m')"
proof (cases "container_scan (glyph_gx g) (glyph_gy g) metas None")
  case None
  from container_scan_None[OF None] assms show ?thesis by blast
next
  case (Some r)
  obtain k a where r: "r = (k, a)" by (cases r) auto
  from container_scan_Some[OF Some[unfolded r]] obtain m where
    "Some m \<in> set metas" "inside (glyph_gx g) (glyph_gy g) m" "meta_idx m = k" "meta_area m = a"
    and "\<forall>m'. Some m' \<in> set metas \<and> inside (glyph_gx g) (glyph_gy g) m' \<longrightarrow> a \<le> meta_area m'"
    by auto
  then show ?thesis using Some r by (auto simp: assigned_segment_def)
qed

lemma assigned_nearest_centre:
  assumes "\<forall>m. Some m \<in> set metas \<longrightarrow> \<not> inside (glyph_gx g) (glyph_gy g) m" and "Some m0 \<in> set metas"
  shows "\<exists>m. Some m \<in> set metas \<and> meta_idx m = assigned_segment metas g
            \<and> (\<forall>m'. Some m' \<in> set metas \<longrightarrow>
                   centre_dist (glyph_gx g) (glyph_gy g) m \<le> centre_dist (glyph_gx g) (glyph_gy g) m')"
proof -
  have c: "container_scan (glyph_gx g) (glyph_gy g) metas None = None"
  proof (cases "container_scan (glyph_gx g) (glyph_gy g) metas None")
    case None
    then show ?thesis .
  next
    case (Some r)
    obtain k a where r: "r = (k, a)" by (cases r) auto
    from container_scan_Some[OF Some[unfolded r]] assms(1) show ?thesis by auto
  qed
  have ne: "valid_metas metas \<noteq> []" using assms(2) set_valid_metas[of metas] by fastforce
  from nearest_scan_None[OF ne, of "glyph_gx g" "glyph_gy g" 0] obtain m where
    "m \<in> set (valid_metas metas)"
    "meta_idx m = nearest_scan (glyph_gx g) (glyph_gy g) (valid_metas metas) 0 None"
    "\<forall>m'\<in>set (valid_metas metas). centre_dist (glyph_gx g) (glyph_gy g) m \<le> centre_dist (glyph_gx g) (glyph_gy g) m'"
    by blast
  then show ?thesis using c ne by (auto simp: assigned_segment_def set_valid_metas)
qed

lemma assigned_no_boxes:
  assumes "\<forall>m. Some m \<notin> set metas"
  shows "assigned_segment metas g = 0"
proof -
  have v: "valid_metas metas = []" using assms set_valid_metas[of metas] by auto
  have "container_scan (glyph_gx g) (glyph_gy g) metas None = None"
  proof (cases "container_scan (glyph_gx g) (glyph_gy g) metas None")
    case None
    then show ?thesis .
  next
    case (Some r)
    obtain k a where r: "r = (k, a)" by (cases r) auto
    from container_scan_Some[OF Some[unfolded r]] assms show ?thesis by auto
  qed
  then show ?thesis using v by (simp add: assigned_segment_def)
qed


lemma slice_desc_ok:
  "desc_sliceable seg \<Longrightarrow>
     \<exists>shown. py_slice_to (case desc seg of None \<Rightarrow> PyStr ''N/A'' | Some d \<Rightarrow> d) 20 = Inr shown"
proof (cases "desc seg")
  case None
  then show ?thesis by simp
next
  case (Some d)
  assume "desc_sliceable seg"
  then show ?thesis using Some by (cases d) (simp_all add: desc_sliceable_def)
qed

lemma slice_desc_fail:
  "\<not> desc_sliceable seg \<Longrightarrow>
     py_slice_to (case desc seg of None \<Rightarrow> PyStr ''N/A'' | Some d \<Rightarrow> d) 20 = Inl TypeError"
proof (cases "desc seg")
  case None
  assume "\<not> desc_sliceable seg"
  then show ?thesis using None by (simp add: desc_sliceable_def)
next
  case (Some d)
  assume "\<not> desc_sliceable seg"
  then show ?thesis using Some by (cases d) (simp_all add: desc_sliceable_def)
qed

lemma distribution_report_ok:
  assumes "\<forall>j. i \<le> j \<and> j < i + length segs \<longrightarrow> bins j \<noteq> None"
    and "list_all desc_sliceable segs"
  shows "\<exists>printed. distribution_report bins i segs = Inr printed"
  using assms
proof (induction segs arbitrary: i)
  case Nil
  then show ?case by simp
next
  case (Cons seg rest)
  from Cons.prems(1) obtain bin where b: "bins i = Some bin" by fastforce
  from Cons.prems(2) obtain shown where
    s: "py_slice_to (case desc seg of None \<Rightarrow> PyStr ''N/A'' | Some d \<Rightarrow> d) 20 = Inr shown"
    using slice_desc_ok by fastforce
  have "\<forall>j. Suc i \<le> j \<and> j < Suc i + length rest \<longrightarrow> bins j \<noteq> None"
    using Cons.prems(1) by simp
  from Cons.IH[OF this] Cons.prems(2) obtain printed where
    "distribution_report bins (Suc i) rest = Inr printed" by auto
  then show ?case using b s by simp
qed

lemma distribution_report_fail:
  assumes "\<forall>j. i \<le> j \<and> j < i + length segs \<longrightarrow> bins j \<noteq> None"
    and "\<not> list_all desc_sliceable segs"
  shows "distribution_report bins i segs = Inl TypeError"
  using assms
proof (induction segs arbitrary: i)
  case Nil
  then show ?case by simp
next
  case (Cons seg rest)
  from Cons.prems(1) obtain bin where b: "bins i = Some bin" by fastforce
  show ?case
  proof (cases "desc_sliceable seg")
    case False
    then show ?thesis using b slice_desc_fail by simp
  next
    case True
    then obtain shown where
      s: "py_slice_to (case desc seg of None \<Rightarrow> PyStr ''N/A'' | Some d \<Rightarrow> d) 20 = Inr shown"
      using slice_desc_ok by blast
    have k: "\<forall>j. Suc i \<le> j \<and> j < Suc i + length rest \<longrightarrow> bins j \<noteq> None"
      using Cons.prems(1) by simp
    have "\<not> list_all desc_sliceable rest" using Cons.prems(2) True by simp
    from Cons.IH[OF k this] show ?thesis using b s by simp
  qed
qed

lemma cluster_outcome:
  assumes "segs \<noteq> []" and "seg_metas width height segs = Inr metas"
    and "assign_glyphs metas segs glyphs = Inr bins" and "dom bins = {i. i < length segs}"
  shows "list_all desc_sliceable segs \<Longrightarrow> cluster_glyphs_by_bbox glyphs width height segs = Inr bins"
    and "\<not> list_all desc_sliceable segs \<Longrightarrow> cluster_glyphs_by_bbox glyphs width height segs = Inl TypeError"
proof -
  have k: "\<forall>j. 0 \<le> j \<and> j < 0 + length segs \<longrightarrow> bins j \<noteq> None"
    using assms(4) by auto
  {
    assume "list_all desc_sliceable segs"
    from distribution_report_ok[OF k this] obtain printed where
      "distribution_report bins 0 segs = Inr printed" by blast
    then show "cluster_glyphs_by_bbox glyphs width height segs = Inr bins"
      using assms(1-3) by (simp add: cluster_glyphs_by_bbox_def)
  }
  {
    assume "\<not> list_all desc_sliceable segs"
    from distribution_report_fail[OF k this]
    show "cluster_glyphs_by_bbox glyphs width height segs = Inl TypeError"
      using assms(1-3) by (simp add: cluster_glyphs_by_bbox_def)
  }
qed

lemma bins_cover:
  assumes "\<forall>i. mset (section_list bins i) = mset (filter (\<lambda>g. f g = i) glyphs)"
    and "\<forall>g\<in>set glyphs. f g < n"
  shows "mset (concat (map (section_list bins) [0..<n])) = mset glyphs"
proof -
  have "mset (concat (map (section_list bins) [0..<n]))
        = sum_list (map (\<lambda>i. mset (section_list bins i)) [0..<n])"
    by (simp add: mset_concat comp_def)
  also have "\<dots> = sum_list (map (\<lambda>i. mset (filter (\<lambda>g. f g = i) glyphs)) [0..<n])"
    using assms(1) by simp
  also have "\<dots> = mset (concat (map (\<lambda>i. filter (\<lambda>g. f g = i) glyphs) [0..<n]))"
    by (simp add: mset_concat comp_def)
  also have "\<dots> = mset glyphs"
    using assms(2) by (intro mset_partition_by_key) auto
  finally show ?thesis .
qed

lemma cluster_bbox_error:
  "segs \<noteq> [] \<Longrightarrow> seg_metas width height segs = Inl e \<Longrightarrow>
     cluster_glyphs_by_bbox glyphs width height segs = Inl e"
  by (simp add: cluster_glyphs_by_bbox_def)

lemma short_box_raises_index_error:
  "cluster_glyphs_by_bbox [box_at 1 100 100] 1920 1080 short_box_segments = Inl IndexError"
  by (simp add: cluster_glyphs_by_bbox_def seg_metas_def seg_meta_of_def bbox_coord_def
                short_box_segments_def Let_def)

text \<open>
  Claim C7. The V6 assignment by bounding boxes does not keep the promise that it never
  raises. With segments supplied, the function ends with a loop that prints, for every
  segment, the first twenty characters of its description, \<^verbatim>\<open>desc[:20]\<close>, and only then
  returns the bins. What holds of the code is this. If reading the boxes raises (a box with
  fewer than four entries, or an entry that is not a number), the function raises the same
  error. Otherwise the two loops over the glyphs never raise: no bin is missing for an index
  they compute, every glyph is put into exactly one of the bins \<open>0 .. n - 1\<close>, the bins
  together hold the glyphs exactly once, and the bin of index \<open>i\<close> holds the glyphs assigned
  to \<open>i\<close>. The function returns these bins when every description can be sliced (the key is
  absent, or its value is a string or a list), and raises TypeError in the printing loop
  when some description is null or a number, as it is for every script part without a
  visual description in the segments the caller builds. The assignment itself is as the
  claim says: a glyph whose centre lies inside some valid box is assigned to a segment whose
  box contains it and has the smallest area among the boxes containing it; a glyph inside no
  box is assigned to a segment whose box centre is nearest, when a valid box exists; and it
  is assigned to segment 0 when there is no valid box. The centre is the one the code
  computes, \<open>(x + w / 2, y + floor (h / 2))\<close>; a box is valid when it is present and has
  positive width and height.
\<close>

theorem bbox_assignment_returns_unless_description_unsliceable:
  fixes glyphs :: "'a glyph_box_scheme list"
  assumes "segs \<noteq> []"
  shows "(\<forall>e. seg_metas width height segs = Inl e \<longrightarrow>
            cluster_glyphs_by_bbox glyphs width height segs = Inl e)
     \<and> (\<forall>metas. seg_metas width height segs = Inr metas \<longrightarrow>
          (\<exists>bins. assign_glyphs metas segs glyphs = Inr bins
             \<and> dom bins = {i. i < length segs}
             \<and> (\<forall>i. mset (section_list bins i)
                    = mset (filter (\<lambda>g. assigned_segment metas g = i) glyphs))
             \<and> mset (concat (map (section_list bins) [0..<length segs])) = mset glyphs
             \<and> (list_all desc_sliceable segs \<longrightarrow>
                  cluster_glyphs_by_bbox glyphs width height segs = Inr bins)
             \<and> (\<not> list_all desc_sliceable segs \<longrightarrow>
                  cluster_glyphs_by_bbox glyphs width height segs = Inl TypeError))
          \<and> (\<forall>g::'a glyph_box_scheme.
               assigned_segment metas g < length segs
               \<and> ((\<exists>m. Some m \<in> set metas \<and> inside (glyph_gx g) (glyph_gy g) m) \<longrightarrow>
                    (\<exists>m. Some m \<in> set metas \<and> inside (glyph_gx g) (glyph_gy g) m
                       \<and> meta_idx m = assigned_segment metas g
                       \<and> (\<forall>m'. Some m' \<in> set metas \<and> inside (glyph_gx g) (glyph_gy g) m'
                              \<longrightarrow> meta_area m \<le> meta_area m')))
               \<and> ((\<forall>m. Some m \<in> set metas \<longrightarrow> \<not> inside (glyph_gx g) (glyph_gy g) m)
                    \<and> (\<exists>m. Some m \<in> set metas) \<longrightarrow>
                    (\<exists>m. Some m \<in> set metas
                       \<and> meta_idx m = assigned_segment metas g
                       \<and> (\<forall>m'. Some m' \<in> set metas \<longrightarrow>
                              centre_dist (glyph_gx g) (glyph_gy g) m
                                \<le> centre_dist (glyph_gx g) (glyph_gy g) m')))
               \<and> ((\<forall>m. Some m \<notin> set metas) \<longrightarrow> assigned_segment metas g = 0)))"
proof -
  have raised: "\<forall>e. seg_metas width height segs = Inl e \<longrightarrow>
                  cluster_glyphs_by_bbox glyphs width height segs = Inl e"
    using assms cluster_bbox_error by blast
  have read: "(\<exists>bins. assign_glyphs metas segs glyphs = Inr bins
             \<and> dom bins = {i. i < length segs}
             \<and> (\<forall>i. mset (section_list bins i)
                    = mset (filter (\<lambda>g. assigned_segment metas g = i) glyphs))
             \<and> mset (concat (map (section_list bins) [0..<length segs])) = mset glyphs
             \<and> (list_all desc_sliceable segs \<longrightarrow>
                  cluster_glyphs_by_bbox glyphs width height segs = Inr bins)
             \<and> (\<not> list_all desc_sliceable segs \<longrightarrow>
                  cluster_glyphs_by_bbox glyphs width height segs = Inl TypeError))
          \<and> (\<forall>g::'a glyph_box_scheme.
               assigned_segment metas g < length segs
               \<and> ((\<exists>m. Some m \<in> set metas \<and> inside (glyph_gx g) (glyph_gy g) m) \<longrightarrow>
                    (\<exists>m. Some m \<in> set metas \<and> inside (glyph_gx g) (glyph_gy g) m
                       \<and> meta_idx m = assigned_segment metas g
                       \<and> (\<forall>m'. Some m' \<in> set metas \<and> inside (glyph_gx g) (glyph_gy g) m'
                              \<longrightarrow> meta_area m \<le> meta_area m')))
               \<and> ((\<forall>m. Some m \<in> set metas \<longrightarrow> \<not> inside (glyph_gx g) (glyph_gy g) m)
                    \<and> (\<exists>m. Some m \<in> set metas) \<longrightarrow>
                    (\<exists>m. Some m \<in> set metas
                       \<and> meta_idx m = assigned_segment metas g
                       \<and> (\<forall>m'. Some m' \<in> set metas \<longrightarrow>
                              centre_dist (glyph_gx g) (glyph_gy g) m
                                \<le> centre_dist (glyph_gx g) (glyph_gy g) m')))
               \<and> ((\<forall>m. Some m \<notin> set metas) \<longrightarrow> assigned_segment metas g = 0))"
    if sm: "seg_metas width height segs = Inr metas" for metas
  proof -
    have idx: "\<forall>m. Some m \<in> set metas \<longrightarrow> meta_idx m < length segs"
      using seg_metas_idx[OF sm] by blast
    from assign_glyphs_bins[OF assms idx, of glyphs] obtain bins where
      c: "assign_glyphs metas segs glyphs = Inr bins"
      and d: "dom bins = {i. i < length segs}"
      and s: "\<forall>i. mset (section_list bins i) = mset (filter (\<lambda>g. assigned_segment metas g = i) glyphs)"
      by blast
    have v: "assigned_segment metas g < length segs" for g :: "'a glyph_box_scheme"
      using assms idx by (rule assigned_segment_valid)
    have cover: "mset (concat (map (section_list bins) [0..<length segs])) = mset glyphs"
      using s v by (intro bins_cover) auto
    have ok: "list_all desc_sliceable segs \<longrightarrow> cluster_glyphs_by_bbox glyphs width height segs = Inr bins"
      using cluster_outcome(1)[OF assms sm c d] by blast
    have bad: "\<not> list_all desc_sliceable segs \<longrightarrow> cluster_glyphs_by_bbox glyphs width height segs = Inl TypeError"
      using cluster_outcome(2)[OF assms sm c d] by blast
    have bins: "\<exists>bins. assign_glyphs metas segs glyphs = Inr bins
             \<and> dom bins = {i. i < length segs}
             \<and> (\<forall>i. mset (section_list bins i)
                    = mset (filter (\<lambda>g. assigned_segment metas g = i) glyphs))
             \<and> mset (concat (map (section_list bins) [0..<length segs])) = mset glyphs
             \<and> (list_all desc_sliceable segs \<longrightarrow>
                  cluster_glyphs_by_bbox glyphs width height segs = Inr bins)
             \<and> (\<not> list_all desc_sliceable segs \<longrightarrow>
                  cluster_glyphs_by_bbox glyphs width height segs = Inl TypeError)"
      using c d s cover ok bad by (intro exI[of _ bins]) blast
    have each: "assigned_segment metas g < length segs
           \<and> ((\<exists>m. Some m \<in> set metas \<and> inside (glyph_gx g) (glyph_gy g) m) \<longrightarrow>
                (\<exists>m. Some m \<in> set metas \<and> inside (glyph_gx g) (glyph_gy g) m
                   \<and> meta_idx m = assigned_segment metas g
                   \<and> (\<forall>m'. Some m' \<in> set metas \<and> inside (glyph_gx g) (glyph_gy g) m'
                          \<longrightarrow> meta_area m \<le> meta_area m')))
           \<and> ((\<forall>m. Some m \<in> set metas \<longrightarrow> \<not> inside (glyph_gx g) (glyph_gy g) m)
                \<and> (\<exists>m. Some m \<in> set metas) \<longrightarrow>
                (\<exists>m. Some m \<in> set metas
                   \<and> meta_idx m = assigned_segment metas g
                   \<and> (\<forall>m'. Some m' \<in> set metas \<longrightarrow>
                          centre_dist (glyph_gx g) (glyph_gy g) m
                            \<le> centre_dist (glyph_gx g) (glyph_gy g) m')))
           \<and> ((\<forall>m. Some m \<notin> set metas) \<longrightarrow> assigned_segment metas g = 0)"
      for g :: "'a glyph_box_scheme"
      using v[of g] assigned_smallest_container[of _ metas g] assigned_nearest_centre[of metas g]
            assigned_no_boxes[of metas g]
      by blast
    show ?thesis
    proof (rule conjI)
      show "\<forall>g::'a glyph_box_scheme.
               assigned_segment metas g < length segs
               \<and> ((\<exists>m. Some m \<in> set metas \<and> inside (glyph_gx g) (glyph_gy g) m) \<longrightarrow>
                    (\<exists>m. Some m \<in> set metas \<and> inside (glyph_gx g) (glyph_gy g) m
                       \<and> meta_idx m = assigned_segment metas g
                       \<and> (\<forall>m'. Some m' \<in> set metas \<and> inside (glyph_gx g) (glyph_gy g) m'
                              \<longrightarrow> meta_area m \<le> meta_area m')))
               \<and> ((\<forall>m. Some m \<in> set metas \<longrightarrow> \<not> inside (glyph_gx g) (glyph_gy g) m)
                    \<and> (\<exists>m. Some m \<in> set metas) \<longrightarrow>
                    (\<exists>m. Some m \<in> set metas
                       \<and> meta_idx m = assigned_segment metas g
                       \<and> (\<forall>m'. Some m' \<in> set metas \<longrightarrow>
                              centre_dist (glyph_gx g) (glyph_gy g) m
                                \<le> centre_dist (glyph_gx g) (glyph_gy g) m')))
               \<and> ((\<forall>m. Some m \<notin> set metas) \<longrightarrow> assigned_segment metas g = 0)"
        using each by (rule allI)
    qed (rule bins)
  qed
  show ?thesis
  proof (rule conjI)
    show "\<forall>e. seg_metas width height segs = Inl e \<longrightarrow>
            cluster_glyphs_by_bbox glyphs width height segs = Inl e"
      by (rule raised)
  qed (intro allI impI, rule read)
qed

lemma boxed_example_metas: "seg_metas 1920 1080 boxed_segments = Inr boxed_metas"
  by (simp add: seg_metas_def seg_meta_of_def bbox_coord_def boxed_segments_def boxed_metas_def Let_def)

lemma boxed_example_assignment:
  "assigned_segment boxed_metas (box_at 1 100 100) = 0"
  "assigned_segment boxed_metas (box_at 2 600 100) = 1"
  "assigned_segment boxed_metas (box_at 3 1500 800) = 1"
  by (simp_all add: assigned_segment_def valid_metas_def boxed_metas_def box_at_def
                    glyph_gx_def glyph_gy_def inside_def centre_dist_def Let_def)

lemma unboxed_example_metas: "seg_metas 1920 1080 unboxed_segments = Inr [None, None]"
  by (simp add: seg_metas_def seg_meta_of_def unboxed_segments_def)

lemma unboxed_example_assignment: "assigned_segment [None, None] (box_at 4 700 700) = 0"
  by (simp add: assigned_segment_def valid_metas_def)

theorem bbox_assignment_returns_unless_description_unsliceable_witness:
  "(\<exists>bins. cluster_glyphs_by_bbox [box_at 1 100 100, box_at 2 600 100, box_at 3 1500 800]
              1920 1080 boxed_segments = Inr bins
          \<and> mset (section_list bins 0) = {#box_at 1 100 100#}
          \<and> mset (section_list bins 1) = {#box_at 2 600 100, box_at 3 1500 800#})
   \<and> (\<exists>bins. cluster_glyphs_by_bbox [box_at 4 700 700] 1920 1080 unboxed_segments = Inr bins
          \<and> mset (section_list bins 0) = {#box_at 4 700 700#}
          \<and> mset (section_list bins 1) = {#})"
proof
  have h: "boxed_segments \<noteq> []" by (simp add: boxed_segments_def)
  have l: "list_all desc_sliceable boxed_segments"
    by (simp add: boxed_segments_def desc_sliceable_def)
  from bbox_assignment_returns_unless_description_unsliceable
         [OF h, where glyphs = "[box_at 1 100 100, box_at 2 600 100, box_at 3 1500 800]"
                  and width = 1920 and height = 1080]
       boxed_example_metas l
  obtain bins where
    "cluster_glyphs_by_bbox [box_at 1 100 100, box_at 2 600 100, box_at 3 1500 800]
       1920 1080 boxed_segments = Inr bins"
    "\<forall>i. mset (section_list bins i)
         = mset (filter (\<lambda>g. assigned_segment boxed_metas g = i)
                        [box_at 1 100 100, box_at 2 600 100, box_at 3 1500 800])"
    by blast
  then show "\<exists>bins. cluster_glyphs_by_bbox [box_at 1 100 100, box_at 2 600 100, box_at 3 1500 800]
              1920 1080 boxed_segments = Inr bins
          \<and> mset (section_list bins 0) = {#box_at 1 100 100#}
          \<and> mset (section_list bins 1) = {#box_at 2 600 100, box_at 3 1500 800#}"
    using boxed_example_assignment by (intro exI[of _ bins]) simp
next
  have h: "unboxed_segments \<noteq> []" by (simp add: unboxed_segments_def)
  have l: "list_all desc_sliceable unboxed_segments"
    by (simp add: unboxed_segments_def desc_sliceable_def)
  from bbox_assignment_returns_unless_description_unsliceable
         [OF h, where glyphs = "[box_at 4 700 700]" and width = 1920 and height = 1080]
       unboxed_example_metas l
  obtain bins where
    "cluster_glyphs_by_bbox [box_at 4 700 700] 1920 1080 unboxed_segments = Inr bins"
    "\<forall>i. mset (section_list bins i)
         = mset (filter (\<lambda>g. assigned_segment [None, None] g = i) [box_at 4 700 700])"
    by blast
  then show "\<exists>bins. cluster_glyphs_by_bbox [box_at 4 700 700] 1920 1080 unboxed_segments = Inr bins
          \<and> mset (section_list bins 0) = {#box_at 4 700 700#}
          \<and> mset (section_list bins 1) = {#}"
    using unboxed_example_assignment by (intro exI[of _ bins]) simp
qed

text \<open>
  The segments of a script part without a visual description, one glyph at the top left:
  the glyph is assigned, and the printing loop raises before the bins are returned.
\<close>

theorem null_description_raises_type_error:
  "cluster_glyphs_by_bbox [box_at 1 100 100] 1920 1080 undescribed_segments = Inl TypeError"
  by (simp add: cluster_glyphs_by_bbox_def seg_metas_def seg_meta_of_def bbox_coord_def
                undescribed_segments_def assign_glyphs_def init_bins_def dict_append_def
                box_at_def glyph_gx_def glyph_gy_def inside_def Let_def)

end
